theory Spec2Isabelle
  imports Main "HOL-Library.Char_ord" "HOL-Library.List_Lexorder" "HOL-Library.Multiset"
begin

section \<open>EcoCor extractor: the data model of \<^verbatim>\<open>extractor/main.py\<close>\<close>

text \<open>
  The pydantic models of the service become records, the language enumeration a datatype.
  Python's \<^verbatim>\<open>int\<close> is unbounded and is modelled by \<^typ>\<open>int\<close>; \<^verbatim>\<open>str\<close> is
  \<^typ>\<open>string\<close>, compared character by character.
\<close>

datatype Language = EN | DE

record Segment =
  "text" :: string
  segment_id :: string

record WordInfo =
  word :: string
  wikidata_ids :: "string list"
  category :: string

record date =
  year :: int
  month :: int
  day :: int

record WordMetadata =
  name :: string
  description :: string
  date :: date

text \<open>
  A Python \<^verbatim>\<open>dict\<close> keeps its keys in insertion order, and the order in which
  \<^verbatim>\<open>process_text\<close> emits its records is the key order of such a dict. A dict is therefore
  an association list with pairwise distinct keys, in insertion order.
\<close>

type_synonym ('k, 'v) dict = "('k \<times> 'v) list"

record WordInfoFrequency = WordInfo +
  segment_frequencies :: "(string, int) dict"
  overall_frequency :: int

record WordInfoMeta =
  metadata :: WordMetadata
  word_list :: "WordInfo list"

record WordInfoFrequencyMeta =
  metadata :: WordMetadata
  word_list :: "WordInfoFrequency list"

record UrlDescriptor =
  url :: string

record SegmentWordListUrl =
  segments :: "Segment list"
  word_list :: UrlDescriptor
  language :: Language

text \<open>
  The exceptions a run can end with: the ones \<^verbatim>\<open>read_word_list\<close> raises (a failed
  request, a resource that does not validate as a word list), and the two that subscripting
  a dict or a list raises.
\<close>

datatype error = HTTPError | ValidationError | KeyError string | IndexError

section \<open>Dict and list primitives\<close>

text \<open>\<^verbatim>\<open>k in d\<close>\<close>

definition dict_contains :: "('k, 'v) dict \<Rightarrow> 'k \<Rightarrow> bool" where
  "dict_contains d k = (k \<in> set (map fst d))"

text \<open>
  \<^verbatim>\<open>d[k] = v\<close>: an existing key keeps its position and gets the new value, a new key is
  appended.
\<close>

fun dict_setitem :: "('k, 'v) dict \<Rightarrow> 'k \<Rightarrow> 'v \<Rightarrow> ('k, 'v) dict" where
  "dict_setitem [] k v = [(k, v)]"
| "dict_setitem ((k', v') # d) k v =
     (if k' = k then (k', v) # d else (k', v') # dict_setitem d k v)"

text \<open>\<^verbatim>\<open>d[k]\<close>, which raises \<^verbatim>\<open>KeyError\<close> on a missing key.\<close>

definition dict_getitem :: "(string, 'v) dict \<Rightarrow> string \<Rightarrow> error + 'v" where
  "dict_getitem d k = (case map_of d k of None \<Rightarrow> Inl (KeyError k) | Some v \<Rightarrow> Inr v)"

text \<open>\<^verbatim>\<open>xs[i]\<close> for an index that \<^verbatim>\<open>enumerate\<close> produced (never negative).\<close>

definition list_getitem :: "'a list \<Rightarrow> nat \<Rightarrow> error + 'a" where
  "list_getitem xs i = (if i < length xs then Inr (xs ! i) else Inl IndexError)"

text \<open>
  \<^verbatim>\<open>collections.Counter(xs)\<close> counts the elements of \<^verbatim>\<open>xs\<close> one by one; subscripting
  a Counter with a key it does not hold gives 0 instead of raising.
\<close>

definition counter_getitem :: "('k, int) dict \<Rightarrow> 'k \<Rightarrow> int" where
  "counter_getitem c k = (case map_of c k of None \<Rightarrow> 0 | Some n \<Rightarrow> n)"

definition Counter :: "'k list \<Rightarrow> ('k, int) dict" where
  "Counter xs = fold (\<lambda>x c. dict_setitem c x (counter_getitem c x + 1)) xs []"

section \<open>The request handler \<^verbatim>\<open>process_text\<close>\<close>

text \<open>
  Three things the handler uses are not computed by it and are parameters of the model:
  \<^item> \<open>read_word_list\<close>, the download and validation of the word list, which may raise;
  \<^item> \<open>lemmatize\<close>, the spaCy pipeline that \<^verbatim>\<open>setup_analysis_components\<close> loads for the
    language: \<open>lemmatize lang t\<close> is the list \<^verbatim>\<open>[token.lemma_ for token in doc]\<close> for the
    document that \<^verbatim>\<open>nlp.pipe\<close> yields for the text \<open>t\<close>;
  \<^item> \<open>set_iter\<close>, the order in which \<^verbatim>\<open>for word in intersect\<close> visits the elements of
    a Python \<^verbatim>\<open>set\<close> of strings. The language does not fix this order (it follows the
    string hashes, which are salted per process), so it is left open: \<open>set_iteration\<close>
    says only that every element of the set is visited exactly once.
\<close>

definition set_iteration :: "(string set \<Rightarrow> string list) \<Rightarrow> bool" where
  "set_iteration set_iter = (\<forall>S. finite S \<longrightarrow> set (set_iter S) = S \<and> distinct (set_iter S))"

text \<open>
  Lines 116-119: the entries of the word list grouped by their word.
  \<^verbatim>\<open>
  for entry in word_info_meta.word_list:
      if entry.word not in word_to_word_info:
          word_to_word_info[entry.word] = []
      word_to_word_info[entry.word].append(entry.dict())
  \<close>
\<close>

fun group_entries ::
  "WordInfo list \<Rightarrow> (string, WordInfo list) dict \<Rightarrow> error + (string, WordInfo list) dict" where
  "group_entries [] word_to_word_info = Inr word_to_word_info"
| "group_entries (entry # rest) word_to_word_info =
     (let d = (if \<not> dict_contains word_to_word_info (word entry)
               then dict_setitem word_to_word_info (word entry) []
               else word_to_word_info)
      in case dict_getitem d (word entry) of
           Inl e \<Rightarrow> Inl e
         | Inr infos \<Rightarrow> group_entries rest (dict_setitem d (word entry) (infos @ [entry])))"

text \<open>
  Lines 141-146, the body of the loop over the segments, for the words of one segment:
  \<^verbatim>\<open>
  for word in intersect:
      if word not in word_to_segment_frq:
          word_to_segment_frq[word] = {}
      word_to_segment_frq[word][segments_word_list.segments[i].segment_id] = counted[word]
  \<close>
\<close>

fun save_frequencies ::
  "string list \<Rightarrow> Segment list \<Rightarrow> nat \<Rightarrow> (string, int) dict \<Rightarrow>
   (string, (string, int) dict) dict \<Rightarrow> error + (string, (string, int) dict) dict" where
  "save_frequencies [] segs i counted word_to_segment_frq = Inr word_to_segment_frq"
| "save_frequencies (w # ws) segs i counted word_to_segment_frq =
     (let d = (if \<not> dict_contains word_to_segment_frq w
               then dict_setitem word_to_segment_frq w []
               else word_to_segment_frq)
      in case dict_getitem d w of
           Inl e \<Rightarrow> Inl e
         | Inr segment_frq \<Rightarrow>
             (case list_getitem segs i of
                Inl e \<Rightarrow> Inl e
              | Inr segment \<Rightarrow>
                  save_frequencies ws segs i counted
                    (dict_setitem d w
                       (dict_setitem segment_frq (segment_id segment) (counter_getitem counted w)))))"

text \<open>
  Lines 125-146: the loop over \<^verbatim>\<open>enumerate(nlp.pipe(...))\<close>, with the lemma list of
  each document already taken.
\<close>

fun annotate ::
  "(string set \<Rightarrow> string list) \<Rightarrow> string set \<Rightarrow> Segment list \<Rightarrow> (nat \<times> string list) list \<Rightarrow>
   (string, (string, int) dict) dict \<Rightarrow> error + (string, (string, int) dict) dict" where
  "annotate set_iter unique_words segs [] word_to_segment_frq = Inr word_to_segment_frq"
| "annotate set_iter unique_words segs ((i, lemmatized_text) # rest) word_to_segment_frq =
     (let vocabulary = set lemmatized_text;
          counted = Counter lemmatized_text;
          intersect = unique_words \<inter> vocabulary
      in case save_frequencies (set_iter intersect) segs i counted word_to_segment_frq of
           Inl e \<Rightarrow> Inl e
         | Inr d \<Rightarrow> annotate set_iter unique_words segs rest d)"

text \<open>
  Lines 151-156: the dict comprehension over \<^verbatim>\<open>all_segment_ids\<close>. Both branches of the
  conditional in the key position are \<^verbatim>\<open>seg_id\<close>.
\<close>

definition zero_fill :: "string list \<Rightarrow> (string, int) dict \<Rightarrow> (string, int) dict" where
  "zero_fill all_segment_ids segment_frq =
     fold (\<lambda>seg_id d.
             dict_setitem d (if seg_id \<in> set all_segment_ids then seg_id else seg_id)
               (case map_of segment_frq seg_id of Some c \<Rightarrow> c | None \<Rightarrow> 0))
          all_segment_ids []"

text \<open>\<^verbatim>\<open>WordInfoFrequency(segment_frequencies=..., overall_frequency=..., **word_info)\<close>\<close>

definition make_WordInfoFrequency ::
  "(string, int) dict \<Rightarrow> int \<Rightarrow> WordInfo \<Rightarrow> WordInfoFrequency" where
  "make_WordInfoFrequency frqs overall word_info =
     \<lparr>word = word word_info, wikidata_ids = wikidata_ids word_info,
      category = category word_info,
      segment_frequencies = frqs, overall_frequency = overall\<rparr>"

text \<open>Lines 150-166: the loop over \<^verbatim>\<open>word_to_segment_frq.items()\<close>.\<close>

fun build_records ::
  "(string, (string, int) dict) dict \<Rightarrow> (string, WordInfo list) dict \<Rightarrow> string list \<Rightarrow>
   WordInfoFrequency list \<Rightarrow> error + WordInfoFrequency list" where
  "build_records [] word_to_word_info all_segment_ids word_info_frequency =
     Inr word_info_frequency"
| "build_records ((w, segment_frq) # rest) word_to_word_info all_segment_ids word_info_frequency =
     (let segment_frq_zero_filled = zero_fill all_segment_ids segment_frq
      in case dict_getitem word_to_word_info w of
           Inl e \<Rightarrow> Inl e
         | Inr word_infos \<Rightarrow>
             (let overall = sum_list (map snd segment_frq)
              in build_records rest word_to_word_info all_segment_ids
                   (word_info_frequency @
                    map (make_WordInfoFrequency segment_frq_zero_filled overall) word_infos)))"

definition process_text ::
  "(string set \<Rightarrow> string list) \<Rightarrow> (string \<Rightarrow> error + WordInfoMeta) \<Rightarrow>
   (Language \<Rightarrow> string \<Rightarrow> string list) \<Rightarrow> SegmentWordListUrl \<Rightarrow> error + WordInfoFrequencyMeta" where
  "process_text set_iter read_word_list lemmatize segments_word_list =
     (case read_word_list (url (SegmentWordListUrl.word_list segments_word_list)) of
        Inl e \<Rightarrow> Inl e
      | Inr word_info_meta \<Rightarrow>
          (case group_entries (WordInfoMeta.word_list word_info_meta) [] of
             Inl e \<Rightarrow> Inl e
           | Inr word_to_word_info \<Rightarrow>
               (let nlp = lemmatize (language segments_word_list);
                    unique_words = set (map word (WordInfoMeta.word_list word_info_meta))
                in case annotate set_iter unique_words (segments segments_word_list)
                          (enumerate 0 (map nlp (map text (segments segments_word_list)))) []
                   of
                     Inl e \<Rightarrow> Inl e
                   | Inr word_to_segment_frq \<Rightarrow>
                       (let all_segment_ids = map segment_id (segments segments_word_list)
                        in case build_records word_to_segment_frq word_to_word_info
                                  all_segment_ids []
                           of
                             Inl e \<Rightarrow> Inl e
                           | Inr word_info_frequency \<Rightarrow>
                               Inr \<lparr>WordInfoFrequencyMeta.metadata =
                                      WordInfoMeta.metadata word_info_meta,
                                    WordInfoFrequencyMeta.word_list = word_info_frequency\<rparr>))))"

section \<open>Summaries of the loops and a worked example\<close>

text \<open>
  The loops of the handler cannot raise; what each computes is summed up by a fold.
  \<open>inner_dict d w\<close> is the dict of counts held for the word \<open>w\<close>, the empty dict
  when the word is not a key yet.
\<close>

definition inner_dict :: "(string, (string, int) dict) dict \<Rightarrow> string \<Rightarrow> (string, int) dict" where
  "inner_dict d w = (case map_of d w of None \<Rightarrow> [] | Some f \<Rightarrow> f)"

text \<open>One pass of the loop body of lines 141-146: the count of \<open>w\<close> is stored under \<open>sid\<close>.\<close>

definition record_count ::
  "string \<Rightarrow> (string \<Rightarrow> int) \<Rightarrow> string \<Rightarrow> (string, (string, int) dict) dict \<Rightarrow>
   (string, (string, int) dict) dict" where
  "record_count sid cnt w d = dict_setitem d w (dict_setitem (inner_dict d w) sid (cnt w))"

text \<open>The whole loop body of lines 125-146 for the segment \<open>s\<close> with lemmas \<open>lem s\<close>.\<close>

definition segment_step ::
  "(string set \<Rightarrow> string list) \<Rightarrow> string set \<Rightarrow> (Segment \<Rightarrow> string list) \<Rightarrow> Segment \<Rightarrow>
   (string, (string, int) dict) dict \<Rightarrow> (string, (string, int) dict) dict" where
  "segment_step set_iter U lem s d =
     fold (record_count (segment_id s) (\<lambda>w. int (count_list (lem s) w)))
       (set_iter (U \<inter> set (lem s))) d"

text \<open>
  The counts held for the word \<open>w\<close> after the segments \<open>segs\<close>, starting from \<open>f\<close>:
  each segment in which the word occurs stores its count under its id.
\<close>

definition segment_frq_of ::
  "(Segment \<Rightarrow> string list) \<Rightarrow> string \<Rightarrow> Segment list \<Rightarrow> (string, int) dict \<Rightarrow> (string, int) dict" where
  "segment_frq_of lem w segs f =
     fold (\<lambda>s f. if w \<in> set (lem s)
                  then dict_setitem f (segment_id s) (int (count_list (lem s) w)) else f) segs f"

text \<open>
  The records appended while the loop of lines 150-166 visits the item \<open>p\<close> of
  \<^verbatim>\<open>word_to_segment_frq\<close>, for the entries \<open>es\<close> of the word list.
\<close>

definition records_for ::
  "WordInfo list \<Rightarrow> string list \<Rightarrow> string \<times> (string, int) dict \<Rightarrow> WordInfoFrequency list" where
  "records_for es ids p =
     map (make_WordInfoFrequency (zero_fill ids (snd p)) (sum_list (map snd (snd p))))
       (filter (\<lambda>e. word e = fst p) es)"

text \<open>The dict \<^verbatim>\<open>word_to_segment_frq\<close> when the loop over the segments has ended.\<close>

definition emitted ::
  "(string set \<Rightarrow> string list) \<Rightarrow> (Language \<Rightarrow> string \<Rightarrow> string list) \<Rightarrow>
   SegmentWordListUrl \<Rightarrow> WordInfoMeta \<Rightarrow> (string, (string, int) dict) dict" where
  "emitted set_iter lemmatize req wim =
     fold (segment_step set_iter (word ` set (WordInfoMeta.word_list wim))
             (\<lambda>s. lemmatize (language req) (text s)))
       (segments req) []"

text \<open>The record emitted for the entry \<open>e\<close> of the word list, when its word occurs.\<close>

definition record_of ::
  "(Language \<Rightarrow> string \<Rightarrow> string list) \<Rightarrow> SegmentWordListUrl \<Rightarrow> WordInfo \<Rightarrow> WordInfoFrequency" where
  "record_of lemmatize req e =
     (let f = segment_frq_of (\<lambda>s. lemmatize (language req) (text s)) (word e) (segments req) []
      in make_WordInfoFrequency (zero_fill (map segment_id (segments req)) f)
           (sum_list (map snd f)) e)"

text \<open>
  The order in which the elements of a list are met for the first time. It is the key
  order of a dict into which the elements are inserted one after another, and it is what
  the outer order of the output is compared with.
\<close>

primrec first_seen :: "'a list \<Rightarrow> 'a list" where
  "first_seen [] = []"
| "first_seen (x # xs) = x # filter (\<lambda>y. y \<noteq> x) (first_seen xs)"

text \<open>
  A worked example: a word list with a homograph (\<open>oak\<close> twice) and a word that occurs
  nowhere (\<open>pine\<close> in the first request), a lemmatizer given by a table, a request with
  two segments, and a request with one segment in which two words of the list occur.
\<close>

definition example_word_list :: WordInfoMeta where
  "example_word_list =
     \<lparr>WordInfoMeta.metadata =
        \<lparr>name = ''trees'', description = ''tree names'', date = \<lparr>year = 2023, month = 5, day = 17\<rparr>\<rparr>,
      WordInfoMeta.word_list =
        [\<lparr>word = ''oak'', wikidata_ids = [''Q12004''], category = ''plant''\<rparr>,
         \<lparr>word = ''pine'', wikidata_ids = [''Q12024''], category = ''plant''\<rparr>,
         \<lparr>word = ''oak'', wikidata_ids = [''Q33036816''], category = ''material''\<rparr>,
         \<lparr>word = ''birch'', wikidata_ids = [''Q25243''], category = ''plant''\<rparr>]\<rparr>"

definition example_read :: "string \<Rightarrow> error + WordInfoMeta" where
  "example_read u = Inr example_word_list"

definition example_lemmatize :: "Language \<Rightarrow> string \<Rightarrow> string list" where
  "example_lemmatize l t =
     (if t = ''the oak fell'' then [''the'', ''oak'', ''fall'']
      else if t = ''birch and oak grow'' then [''birch'', ''and'', ''oak'', ''grow'']
      else if t = ''pine and oak'' then [''pine'', ''and'', ''oak'']
      else [])"

definition example_request :: SegmentWordListUrl where
  "example_request =
     \<lparr>segments = [\<lparr>text = ''the oak fell'', segment_id = ''s1''\<rparr>,
                  \<lparr>text = ''birch and oak grow'', segment_id = ''s2''\<rparr>],
      SegmentWordListUrl.word_list = \<lparr>url = ''https://example.org/word_list.json''\<rparr>,
      language = EN\<rparr>"

definition example_output :: WordInfoFrequencyMeta where
  "example_output =
     \<lparr>WordInfoFrequencyMeta.metadata =
        \<lparr>name = ''trees'', description = ''tree names'', date = \<lparr>year = 2023, month = 5, day = 17\<rparr>\<rparr>,
      WordInfoFrequencyMeta.word_list =
        [\<lparr>word = ''oak'', wikidata_ids = [''Q12004''], category = ''plant'',
          segment_frequencies = [(''s1'', 1), (''s2'', 1)], overall_frequency = 2\<rparr>,
         \<lparr>word = ''oak'', wikidata_ids = [''Q33036816''], category = ''material'',
          segment_frequencies = [(''s1'', 1), (''s2'', 1)], overall_frequency = 2\<rparr>,
         \<lparr>word = ''birch'', wikidata_ids = [''Q25243''], category = ''plant'',
          segment_frequencies = [(''s1'', 0), (''s2'', 1)], overall_frequency = 1\<rparr>]\<rparr>"

definition order_request :: SegmentWordListUrl where
  "order_request =
     \<lparr>segments = [\<lparr>text = ''pine and oak'', segment_id = ''s1''\<rparr>],
      SegmentWordListUrl.word_list = \<lparr>url = ''https://example.org/word_list.json''\<rparr>,
      language = EN\<rparr>"

definition order_output :: WordInfoFrequencyMeta where
  "order_output =
     \<lparr>WordInfoFrequencyMeta.metadata =
        \<lparr>name = ''trees'', description = ''tree names'', date = \<lparr>year = 2023, month = 5, day = 17\<rparr>\<rparr>,
      WordInfoFrequencyMeta.word_list =
        [\<lparr>word = ''oak'', wikidata_ids = [''Q12004''], category = ''plant'',
          segment_frequencies = [(''s1'', 1)], overall_frequency = 1\<rparr>,
         \<lparr>word = ''oak'', wikidata_ids = [''Q33036816''], category = ''material'',
          segment_frequencies = [(''s1'', 1)], overall_frequency = 1\<rparr>,
         \<lparr>word = ''pine'', wikidata_ids = [''Q12024''], category = ''plant'',
          segment_frequencies = [(''s1'', 1)], overall_frequency = 1\<rparr>]\<rparr>"

definition order_output_rev :: WordInfoFrequencyMeta where
  "order_output_rev =
     \<lparr>WordInfoFrequencyMeta.metadata =
        \<lparr>name = ''trees'', description = ''tree names'', date = \<lparr>year = 2023, month = 5, day = 17\<rparr>\<rparr>,
      WordInfoFrequencyMeta.word_list =
        [\<lparr>word = ''pine'', wikidata_ids = [''Q12024''], category = ''plant'',
          segment_frequencies = [(''s1'', 1)], overall_frequency = 1\<rparr>,
         \<lparr>word = ''oak'', wikidata_ids = [''Q12004''], category = ''plant'',
          segment_frequencies = [(''s1'', 1)], overall_frequency = 1\<rparr>,
         \<lparr>word = ''oak'', wikidata_ids = [''Q33036816''], category = ''material'',
          segment_frequencies = [(''s1'', 1)], overall_frequency = 1\<rparr>]\<rparr>"

section \<open>Properties\<close>

lemma map_of_dict_setitem: "map_of (dict_setitem d k v) = (map_of d)(k \<mapsto> v)"
  by (induction d) (auto simp: fun_eq_iff)

lemma keys_dict_setitem:
  "map fst (dict_setitem d k v) = (if k \<in> set (map fst d) then map fst d else map fst d @ [k])"
  by (induction d) force+

lemma distinct_dict_setitem:
  "distinct (map fst d) \<Longrightarrow> distinct (map fst (dict_setitem d k v))"
  by (simp add: keys_dict_setitem)

lemma dict_setitem_twice: "dict_setitem (dict_setitem d k v) k v' = dict_setitem d k v'"
  by (induction d) auto

lemma dict_setitem_new: "k \<notin> set (map fst d) \<Longrightarrow> dict_setitem d k v = d @ [(k, v)]"
  by (induction d) auto

lemma set_dict_setitem: "set (dict_setitem d k v) \<subseteq> insert (k, v) (set d)"
  by (induction d) (auto split: if_splits)

lemma counter_fold:
  "counter_getitem (fold (\<lambda>x c. dict_setitem c x (counter_getitem c x + 1)) xs c) k =
   counter_getitem c k + int (count_list xs k)"
  by (induction xs arbitrary: c) (auto simp: counter_getitem_def map_of_dict_setitem)

lemma counter_getitem_Counter: "counter_getitem (Counter xs) k = int (count_list xs k)"
  by (simp add: Counter_def counter_fold) (simp add: counter_getitem_def)

lemma save_frequencies_eq:
  "i < length segs \<Longrightarrow>
   save_frequencies ws segs i counted d =
   Inr (fold (record_count (segment_id (segs ! i)) (counter_getitem counted)) ws d)"
proof (induction ws arbitrary: d)
  case Nil
  then show ?case by simp
next
  case (Cons w ws)
  show ?case
  proof (cases "dict_contains d w")
    case True
    then obtain f where "map_of d w = Some f"
      by (cases "map_of d w") (auto simp: dict_contains_def map_of_eq_None_iff)
    with True Cons show ?thesis
      by (simp add: dict_getitem_def list_getitem_def record_count_def inner_dict_def)
  next
    case False
    then have "map_of d w = None"
      by (simp add: dict_contains_def map_of_eq_None_iff)
    with False Cons show ?thesis
      by (simp add: dict_getitem_def list_getitem_def record_count_def inner_dict_def
          map_of_dict_setitem dict_setitem_twice)
  qed
qed

lemma annotate_eq:
  "annotate set_iter U segs (enumerate n (map lem (drop n segs))) d =
   Inr (fold (segment_step set_iter U lem) (drop n segs) d)"
proof (induction "length segs - n" arbitrary: n d)
  case 0
  then show ?case by simp
next
  case (Suc m)
  then have n: "n < length segs" by simp
  have dr: "drop n segs = segs ! n # drop (Suc n) segs"
    using n by (simp add: Cons_nth_drop_Suc)
  have m: "m = length segs - Suc n" using Suc.hyps(2) by simp
  have cnt: "counter_getitem (Counter (lem (segs ! n))) = (\<lambda>w. int (count_list (lem (segs ! n)) w))"
    by (simp add: fun_eq_iff counter_getitem_Counter)
  show ?case
    unfolding dr using Suc.hyps(1)[OF m] n
    by (simp add: save_frequencies_eq segment_step_def cnt)
qed

lemma map_of_record_count:
  "map_of (record_count sid cnt w' d) w =
   (if w = w' then Some (dict_setitem (inner_dict d w) sid (cnt w)) else map_of d w)"
  by (simp add: record_count_def map_of_dict_setitem)

lemma keys_record_count:
  "map fst (record_count sid cnt w d) =
   (if w \<in> set (map fst d) then map fst d else map fst d @ [w])"
  by (simp add: record_count_def keys_dict_setitem)

lemma map_of_fold_record_count:
  "map_of (fold (record_count sid cnt) ws d) w =
   (if w \<in> set ws then Some (dict_setitem (inner_dict d w) sid (cnt w)) else map_of d w)"
proof (induction ws arbitrary: d)
  case Nil
  then show ?case by simp
next
  case (Cons a ws)
  show ?case
    by (simp add: Cons.IH map_of_record_count inner_dict_def dict_setitem_twice)
qed

lemma keys_fold_record_count:
  "\<exists>new. map fst (fold (record_count sid cnt) ws d) = map fst d @ new \<and>
         set new = set ws - set (map fst d)"
proof (induction ws arbitrary: d)
  case Nil
  then show ?case by simp
next
  case (Cons a ws)
  let ?d = "record_count sid cnt a d"
  from Cons.IH[of ?d] obtain new where
    new: "map fst (fold (record_count sid cnt) ws ?d) = map fst ?d @ new"
      "set new = set ws - set (map fst ?d)" by blast
  show ?case
  proof (cases "a \<in> set (map fst d)")
    case True
    with new show ?thesis by (auto simp: keys_record_count)
  next
    case False
    with new have "map fst (fold (record_count sid cnt) (a # ws) d) = map fst d @ (a # new)"
      and "set (a # new) = set (a # ws) - set (map fst d)"
      by (auto simp: keys_record_count)
    then show ?thesis by blast
  qed
qed

lemma distinct_fold_record_count:
  "distinct (map fst d) \<Longrightarrow> distinct (map fst (fold (record_count sid cnt) ws d))"
  by (induction ws arbitrary: d) (auto simp: keys_record_count)

lemma segment_frq_of_Nil [simp]: "segment_frq_of lem w [] f = f"
  by (simp add: segment_frq_of_def)

lemma segment_frq_of_Cons:
  "segment_frq_of lem w (s # segs) f =
   segment_frq_of lem w segs
     (if w \<in> set (lem s) then dict_setitem f (segment_id s) (int (count_list (lem s) w)) else f)"
  by (simp add: segment_frq_of_def)

lemma segment_frq_of_unmatched:
  "\<forall>s\<in>set segs. w \<notin> set (lem s) \<Longrightarrow> segment_frq_of lem w segs f = f"
  by (induction segs arbitrary: f) (auto simp: segment_frq_of_Cons)

lemma map_of_segment_step:
  assumes "set_iteration set_iter"
  shows "map_of (segment_step set_iter U lem s d) w =
   (if w \<in> U \<and> w \<in> set (lem s)
    then Some (dict_setitem (inner_dict d w) (segment_id s) (int (count_list (lem s) w)))
    else map_of d w)"
proof -
  have "set (set_iter (U \<inter> set (lem s))) = U \<inter> set (lem s)"
    using assms by (simp add: set_iteration_def)
  then show ?thesis
    by (simp add: segment_step_def map_of_fold_record_count)
qed

lemma keys_segment_step:
  assumes "set_iteration set_iter"
  shows "\<exists>new. map fst (segment_step set_iter U lem s d) = map fst d @ new \<and>
         set new = (U \<inter> set (lem s)) - set (map fst d)"
proof -
  have "set (set_iter (U \<inter> set (lem s))) = U \<inter> set (lem s)"
    using assms by (simp add: set_iteration_def)
  then show ?thesis
    using keys_fold_record_count[of "segment_id s" "\<lambda>w. int (count_list (lem s) w)"
        "set_iter (U \<inter> set (lem s))" d]
    by (simp add: segment_step_def)
qed

lemma distinct_segment_step:
  "distinct (map fst d) \<Longrightarrow> distinct (map fst (segment_step set_iter U lem s d))"
  by (simp add: segment_step_def distinct_fold_record_count)

lemma map_of_fold_segment_step:
  assumes "set_iteration set_iter"
  shows "map_of (fold (segment_step set_iter U lem) segs d) w =
   (if w \<in> U \<and> (\<exists>s\<in>set segs. w \<in> set (lem s))
    then Some (segment_frq_of lem w segs (inner_dict d w))
    else map_of d w)"
proof (induction segs arbitrary: d)
  case Nil
  then show ?case by simp
next
  case (Cons s segs)
  let ?d = "segment_step set_iter U lem s d"
  note step = map_of_segment_step[OF assms, of U lem s d w]
  show ?case
  proof (cases "w \<in> U \<and> w \<in> set (lem s)")
    case True
    then have inner: "inner_dict ?d w =
        dict_setitem (inner_dict d w) (segment_id s) (int (count_list (lem s) w))"
      using step by (simp add: inner_dict_def)
    show ?thesis
    proof (cases "\<exists>s\<in>set segs. w \<in> set (lem s)")
      case True
      with \<open>w \<in> U \<and> w \<in> set (lem s)\<close> show ?thesis
        by (simp add: Cons.IH inner segment_frq_of_Cons)
    next
      case False
      with \<open>w \<in> U \<and> w \<in> set (lem s)\<close> show ?thesis
        using step by (simp add: Cons.IH segment_frq_of_Cons segment_frq_of_unmatched)
    qed
  next
    case False
    then have "map_of ?d w = map_of d w" using step by auto
    then have "inner_dict ?d w = inner_dict d w" by (simp add: inner_dict_def)
    with False \<open>map_of ?d w = map_of d w\<close> show ?thesis
      by (auto simp: Cons.IH segment_frq_of_Cons)
  qed
qed

lemma keys_fold_segment_step:
  assumes "set_iteration set_iter"
  shows "\<exists>new. map fst (fold (segment_step set_iter U lem) segs d) = map fst d @ new \<and>
         set new = {w \<in> U. \<exists>s\<in>set segs. w \<in> set (lem s)} - set (map fst d)"
proof (induction segs arbitrary: d)
  case Nil
  then show ?case by simp
next
  case (Cons s segs)
  let ?d = "segment_step set_iter U lem s d"
  from keys_segment_step[OF assms, of U lem s d] obtain n1 where
    n1: "map fst ?d = map fst d @ n1" "set n1 = (U \<inter> set (lem s)) - set (map fst d)" by blast
  from Cons.IH[of ?d] obtain n2 where
    n2: "map fst (fold (segment_step set_iter U lem) segs ?d) = map fst ?d @ n2"
      "set n2 = {w \<in> U. \<exists>s\<in>set segs. w \<in> set (lem s)} - set (map fst ?d)" by blast
  have "map fst (fold (segment_step set_iter U lem) (s # segs) d) = map fst d @ (n1 @ n2)"
    using n1 n2 by simp
  moreover have "set (n1 @ n2) = {w \<in> U. \<exists>s\<in>set (s # segs). w \<in> set (lem s)} - set (map fst d)"
    using n1 n2 by auto
  ultimately show ?case by blast
qed

lemma distinct_fold_segment_step:
  "distinct (map fst d) \<Longrightarrow> distinct (map fst (fold (segment_step set_iter U lem) segs d))"
  by (induction segs arbitrary: d) (auto simp: distinct_segment_step)

lemma group_entries_eq:
  "\<exists>d'. group_entries es d = Inr d' \<and>
     (\<forall>w. map_of d' w =
        (if w \<in> word ` set es
         then Some ((case map_of d w of None \<Rightarrow> [] | Some xs \<Rightarrow> xs) @ filter (\<lambda>e. word e = w) es)
         else map_of d w))"
proof (induction es arbitrary: d)
  case Nil
  then show ?case by simp
next
  case (Cons e es)
  let ?d1 = "if \<not> dict_contains d (word e) then dict_setitem d (word e) [] else d"
  let ?xs = "case map_of d (word e) of None \<Rightarrow> [] | Some xs \<Rightarrow> xs"
  have get: "dict_getitem ?d1 (word e) = Inr ?xs"
  proof (cases "map_of d (word e)")
    case None
    then have "\<not> dict_contains d (word e)"
      by (simp add: dict_contains_def map_of_eq_None_iff)
    with None show ?thesis
      by (simp add: dict_getitem_def map_of_dict_setitem)
  next
    case (Some xs)
    then have "dict_contains d (word e)"
      by (cases "word e \<in> fst ` set d") (simp_all add: dict_contains_def map_of_eq_None_iff[symmetric])
    with Some show ?thesis
      by (simp add: dict_getitem_def)
  qed
  let ?d2 = "dict_setitem ?d1 (word e) (?xs @ [e])"
  have d2: "map_of ?d2 = (map_of d)(word e \<mapsto> ?xs @ [e])"
    by (auto simp: map_of_dict_setitem)
  from Cons.IH[of ?d2] obtain d' where
    d': "group_entries es ?d2 = Inr d'"
      "\<And>w. map_of d' w =
        (if w \<in> word ` set es
         then Some ((case map_of ?d2 w of None \<Rightarrow> [] | Some xs \<Rightarrow> xs) @ filter (\<lambda>e. word e = w) es)
         else map_of ?d2 w)" by blast
  have "group_entries (e # es) d = Inr d'"
    using get d'(1) by (simp add: Let_def)
  moreover have "map_of d' w =
        (if w \<in> word ` set (e # es)
         then Some ((case map_of d w of None \<Rightarrow> [] | Some xs \<Rightarrow> xs) @ filter (\<lambda>e. word e = w) (e # es))
         else map_of d w)" for w
  proof -
    have "w \<notin> word ` set es \<Longrightarrow> filter (\<lambda>e. word e = w) es = []"
      by (auto simp: filter_empty_conv)
    then show ?thesis
      unfolding d'(2) d2 by auto
  qed
  ultimately show ?case by blast
qed

lemma group_entries_empty:
  "\<exists>d'. group_entries es [] = Inr d' \<and>
     (\<forall>w\<in>word ` set es. map_of d' w = Some (filter (\<lambda>e. word e = w) es))"
  using group_entries_eq[of es "[]"] by auto

lemma build_records_eq:
  "\<forall>w\<in>set (map fst W). map_of G w = Some (filter (\<lambda>e. word e = w) es) \<Longrightarrow>
   build_records W G ids acc = Inr (acc @ concat (map (records_for es ids) W))"
proof (induction W arbitrary: acc)
  case Nil
  then show ?case by simp
next
  case (Cons p W)
  obtain w f where p: "p = (w, f)" by (cases p)
  from Cons.prems have "map_of G w = Some (filter (\<lambda>e. word e = w) es)"
    by (simp add: p)
  moreover have "build_records W G ids acc' = Inr (acc' @ concat (map (records_for es ids) W))" for acc'
    using Cons by simp
  moreover have "records_for es ids (w, f) =
      map (make_WordInfoFrequency (zero_fill ids f) (sum_list (map snd f)))
        (filter (\<lambda>e. word e = w) es)"
    by (simp add: records_for_def)
  ultimately show ?case
    by (simp add: p dict_getitem_def)
qed

lemma process_text_eq:
  assumes "set_iteration set_iter"
    and "read_word_list (url (SegmentWordListUrl.word_list req)) = Inr wim"
  shows "process_text set_iter read_word_list lemmatize req =
    Inr \<lparr>WordInfoFrequencyMeta.metadata = WordInfoMeta.metadata wim,
         WordInfoFrequencyMeta.word_list =
           concat (map (records_for (WordInfoMeta.word_list wim) (map segment_id (segments req)))
                     (emitted set_iter lemmatize req wim))\<rparr>"
proof -
  let ?es = "WordInfoMeta.word_list wim"
  let ?lem = "\<lambda>s. lemmatize (language req) (text s)"
  let ?U = "word ` set ?es"
  let ?W = "emitted set_iter lemmatize req wim"
  from group_entries_empty[of ?es] obtain G where
    G: "group_entries ?es [] = Inr G"
      "\<forall>w\<in>?U. map_of G w = Some (filter (\<lambda>e. word e = w) ?es)" by blast
  have ann: "annotate set_iter ?U (segments req)
      (enumerate 0 (map (lemmatize (language req)) (map text (segments req)))) [] = Inr ?W"
    using annotate_eq[of set_iter ?U "segments req" 0 ?lem "[]"]
    by (simp add: emitted_def comp_def)
  have "set (map fst ?W) \<subseteq> ?U"
    using keys_fold_segment_step[OF assms(1), of ?U ?lem "segments req" "[]"]
    by (auto simp: emitted_def)
  with G(2) have "\<forall>w\<in>set (map fst ?W). map_of G w = Some (filter (\<lambda>e. word e = w) ?es)"
    by blast
  from build_records_eq[OF this, of "map segment_id (segments req)" "[]"]
  show ?thesis
    using assms(2) G(1) ann by (simp add: process_text_def)
qed

subsection \<open>zero fill\<close>

lemma zero_fill_fold:
  "zero_fill ids f =
   fold (\<lambda>k d. dict_setitem d k (case map_of f k of Some c \<Rightarrow> c | None \<Rightarrow> 0)) ids []"
  by (simp add: zero_fill_def)

lemma map_of_fold_setitem:
  "map_of (fold (\<lambda>k d. dict_setitem d k (g k)) ids d) k =
   (if k \<in> set ids then Some (g k) else map_of d k)"
  by (induction ids arbitrary: d) (auto simp: map_of_dict_setitem)

lemma keys_set_dict_setitem: "fst ` set (dict_setitem d k v) = insert k (fst ` set d)"
  using arg_cong[OF keys_dict_setitem[of d k v], of set] by (auto split: if_splits)

lemma keys_fold_setitem:
  "fst ` set (fold (\<lambda>k d. dict_setitem d k (g k)) ids d) = fst ` set d \<union> set ids"
  by (induction ids arbitrary: d) (auto simp: keys_set_dict_setitem)

lemma distinct_fold_setitem:
  "distinct (map fst d) \<Longrightarrow> distinct (map fst (fold (\<lambda>k d. dict_setitem d k (g k)) ids d))"
  by (induction ids arbitrary: d) (auto simp: keys_dict_setitem)

lemma map_of_zero_fill:
  "map_of (zero_fill ids f) k =
   (if k \<in> set ids then Some (case map_of f k of Some c \<Rightarrow> c | None \<Rightarrow> 0) else None)"
  by (simp add: zero_fill_fold map_of_fold_setitem)

lemma keys_zero_fill: "set (map fst (zero_fill ids f)) = set ids"
  by (simp add: zero_fill_fold keys_fold_setitem)

lemma distinct_zero_fill: "distinct (map fst (zero_fill ids f))"
  by (simp add: zero_fill_fold distinct_fold_setitem)

lemma sum_list_dict_values:
  assumes "distinct (map fst d)"
  shows "sum_list (map snd d) = (\<Sum>k\<in>set (map fst d). case map_of d k of Some c \<Rightarrow> c | None \<Rightarrow> (0::int))"
proof -
  have "map snd d = map (\<lambda>k. case map_of d k of Some c \<Rightarrow> c | None \<Rightarrow> 0) (map fst d)"
    using assms by (auto simp: comp_def)
  then have "sum_list (map snd d) =
      sum_list (map (\<lambda>k. case map_of d k of Some c \<Rightarrow> c | None \<Rightarrow> 0) (map fst d))"
    by (rule arg_cong)
  also have "\<dots> = (\<Sum>k\<in>set (map fst d). case map_of d k of Some c \<Rightarrow> c | None \<Rightarrow> 0)"
    using assms by (rule sum_list_distinct_conv_sum_set)
  finally show ?thesis .
qed

lemma sum_list_zero_fill:
  assumes "distinct (map fst f)" and "set (map fst f) \<subseteq> set ids"
  shows "sum_list (map snd (zero_fill ids f)) = sum_list (map snd f)"
proof -
  let ?g = "\<lambda>k. case map_of f k of Some c \<Rightarrow> c | None \<Rightarrow> (0::int)"
  have "sum_list (map snd (zero_fill ids f)) =
      (\<Sum>k\<in>set ids. case map_of (zero_fill ids f) k of Some c \<Rightarrow> c | None \<Rightarrow> 0)"
    using sum_list_dict_values[OF distinct_zero_fill, of ids f] by (simp only: keys_zero_fill)
  also have "\<dots> = sum ?g (set ids)"
    by (rule sum.cong) (simp_all add: map_of_zero_fill)
  also have "\<dots> = sum ?g (set (map fst f))"
  proof (rule sum.mono_neutral_right)
    show "\<forall>i\<in>set ids - set (map fst f). ?g i = 0"
      by (auto simp: map_of_eq_None_iff[THEN iffD2])
  qed (use assms in auto)
  also have "\<dots> = sum_list (map snd f)"
    using sum_list_dict_values[OF assms(1)] by simp
  finally show ?thesis .
qed

subsection \<open>the counts of one word\<close>

lemma keys_segment_frq_of:
  "fst ` set (segment_frq_of lem w segs f) =
   fst ` set f \<union> segment_id ` {s \<in> set segs. w \<in> set (lem s)}"
  by (induction segs arbitrary: f) (auto simp: segment_frq_of_Cons keys_set_dict_setitem)

lemma distinct_segment_frq_of:
  "distinct (map fst f) \<Longrightarrow> distinct (map fst (segment_frq_of lem w segs f))"
  by (induction segs arbitrary: f) (auto simp: segment_frq_of_Cons keys_dict_setitem)

lemma segment_frq_of_positive:
  "(k, c) \<in> set (segment_frq_of lem w segs f) \<Longrightarrow> (k, c) \<in> set f \<or> 0 < c"
proof (induction segs arbitrary: f)
  case Nil
  then show ?case by simp
next
  case (Cons s segs)
  show ?case
  proof (cases "w \<in> set (lem s)")
    case True
    then have pos: "0 < int (count_list (lem s) w)"
      by (cases "count_list (lem s) w") (auto simp: count_list_0_iff)
    from Cons.IH[of "dict_setitem f (segment_id s) (int (count_list (lem s) w))"] Cons.prems True
    have "(k, c) \<in> set (dict_setitem f (segment_id s) (int (count_list (lem s) w))) \<or> 0 < c"
      by (simp add: segment_frq_of_Cons)
    with pos set_dict_setitem[of f "segment_id s" "int (count_list (lem s) w)"]
    show ?thesis by auto
  next
    case False
    with Cons show ?thesis by (simp add: segment_frq_of_Cons)
  qed
qed

lemma segment_frq_of_distinct_ids:
  assumes "distinct (map segment_id segs)"
    and "set (map fst f) \<inter> set (map segment_id segs) = {}"
  shows "segment_frq_of lem w segs f =
     f @ map (\<lambda>s. (segment_id s, int (count_list (lem s) w))) (filter (\<lambda>s. w \<in> set (lem s)) segs)"
  using assms
proof (induction segs arbitrary: f)
  case Nil
  then show ?case by simp
next
  case (Cons s segs)
  show ?case
  proof (cases "w \<in> set (lem s)")
    case True
    let ?f = "f @ [(segment_id s, int (count_list (lem s) w))]"
    have new: "dict_setitem f (segment_id s) (int (count_list (lem s) w)) = ?f"
      using Cons.prems by (intro dict_setitem_new) auto
    have "segment_frq_of lem w segs ?f =
        ?f @ map (\<lambda>s. (segment_id s, int (count_list (lem s) w))) (filter (\<lambda>s. w \<in> set (lem s)) segs)"
      using Cons.prems by (intro Cons.IH) auto
    with True new show ?thesis by (simp add: segment_frq_of_Cons)
  next
    case False
    have "segment_frq_of lem w segs f =
        f @ map (\<lambda>s. (segment_id s, int (count_list (lem s) w))) (filter (\<lambda>s. w \<in> set (lem s)) segs)"
      using Cons.prems by (intro Cons.IH) auto
    with False show ?thesis by (simp add: segment_frq_of_Cons)
  qed
qed

lemma map_of_segment_frq_of:
  assumes "distinct (map segment_id segs)" and "s \<in> set segs"
  shows "map_of (segment_frq_of lem w segs []) (segment_id s) =
     (if w \<in> set (lem s) then Some (int (count_list (lem s) w)) else None)"
proof -
  let ?h = "\<lambda>s. int (count_list (lem s) w)"
  let ?m = "filter (\<lambda>s. w \<in> set (lem s)) segs"
  have eq: "segment_frq_of lem w segs [] = map (\<lambda>s. (segment_id s, ?h s)) ?m"
    using segment_frq_of_distinct_ids[OF assms(1), of "[]" lem w] by simp
  have inj: "inj_on segment_id (set segs)"
    using assms(1) by (simp add: distinct_map)
  show ?thesis
  proof (cases "w \<in> set (lem s)")
    case True
    then have "s \<in> set ?m" using assms(2) by simp
    then have "(segment_id s, ?h s) \<in> set (map (\<lambda>s. (segment_id s, ?h s)) ?m)"
      by force
    moreover have "distinct (map fst (map (\<lambda>s. (segment_id s, ?h s)) ?m))"
      using assms(1) by (simp add: comp_def distinct_map_filter)
    ultimately have "map_of (map (\<lambda>s. (segment_id s, ?h s)) ?m) (segment_id s) = Some (?h s)"
      by (rule map_of_is_SomeI[rotated])
    with True eq show ?thesis by simp
  next
    case False
    have "segment_id s \<notin> fst ` set (map (\<lambda>s. (segment_id s, ?h s)) ?m)"
    proof
      assume "segment_id s \<in> fst ` set (map (\<lambda>s. (segment_id s, ?h s)) ?m)"
      then obtain t where "t \<in> set segs" "w \<in> set (lem t)" "segment_id t = segment_id s"
        by (auto simp: image_iff)
      with inj assms(2) have "t = s" by (auto dest: inj_onD)
      with \<open>w \<in> set (lem t)\<close> False show False by simp
    qed
    then have "map_of (map (\<lambda>s. (segment_id s, ?h s)) ?m) (segment_id s) = None"
      by (rule map_of_eq_None_iff[THEN iffD2])
    with False eq show ?thesis by simp
  qed
qed

lemma sum_segment_frq_of:
  assumes "distinct (map segment_id segs)"
  shows "sum_list (map snd (segment_frq_of lem w segs [])) =
     (\<Sum>s\<leftarrow>segs. int (count_list (lem s) w))"
proof -
  have "segment_frq_of lem w segs [] =
     map (\<lambda>s. (segment_id s, int (count_list (lem s) w))) (filter (\<lambda>s. w \<in> set (lem s)) segs)"
    using segment_frq_of_distinct_ids[OF assms, of "[]" lem w] by simp
  then have "sum_list (map snd (segment_frq_of lem w segs [])) =
      (\<Sum>s\<leftarrow>filter (\<lambda>s. w \<in> set (lem s)) segs. int (count_list (lem s) w))"
    by (simp add: comp_def)
  also have "\<dots> = (\<Sum>s\<leftarrow>segs. int (count_list (lem s) w))"
    by (induction segs) (auto simp: count_list_0_iff)
  finally show ?thesis .
qed

lemma emitted_distinct: "distinct (map fst (emitted set_iter lemmatize req wim))"
  by (simp add: emitted_def distinct_fold_segment_step)

lemma emitted_keys:
  assumes "set_iteration set_iter"
  shows "fst ` set (emitted set_iter lemmatize req wim) =
    {w \<in> word ` set (WordInfoMeta.word_list wim).
       \<exists>s\<in>set (segments req). w \<in> set (lemmatize (language req) (text s))}"
  using keys_fold_segment_step[OF assms, of "word ` set (WordInfoMeta.word_list wim)"
      "\<lambda>s. lemmatize (language req) (text s)" "segments req" "[]"]
  by (auto simp: emitted_def)

lemma emitted_entry:
  assumes "set_iteration set_iter"
  shows "(w, f) \<in> set (emitted set_iter lemmatize req wim) \<longleftrightarrow>
     w \<in> word ` set (WordInfoMeta.word_list wim) \<and>
     (\<exists>s\<in>set (segments req). w \<in> set (lemmatize (language req) (text s))) \<and>
     f = segment_frq_of (\<lambda>s. lemmatize (language req) (text s)) w (segments req) []"
proof -
  have "(w, f) \<in> set (emitted set_iter lemmatize req wim) \<longleftrightarrow>
      map_of (emitted set_iter lemmatize req wim) w = Some f"
    using emitted_distinct[of set_iter lemmatize req wim] by simp
  also have "\<dots> \<longleftrightarrow> w \<in> word ` set (WordInfoMeta.word_list wim) \<and>
     (\<exists>s\<in>set (segments req). w \<in> set (lemmatize (language req) (text s))) \<and>
     f = segment_frq_of (\<lambda>s. lemmatize (language req) (text s)) w (segments req) []"
    unfolding emitted_def map_of_fold_segment_step[OF assms]
    by (auto simp: inner_dict_def)
  finally show ?thesis .
qed

lemma output_records:
  assumes "set_iteration set_iter"
  shows "set (concat (map (records_for (WordInfoMeta.word_list wim) (map segment_id (segments req)))
                     (emitted set_iter lemmatize req wim))) =
    record_of lemmatize req `
      {e \<in> set (WordInfoMeta.word_list wim).
         \<exists>s\<in>set (segments req). word e \<in> set (lemmatize (language req) (text s))}"
  (is "?L = ?R")
proof (rule set_eqI)
  fix r
  let ?es = "WordInfoMeta.word_list wim"
  let ?ids = "map segment_id (segments req)"
  let ?W = "emitted set_iter lemmatize req wim"
  let ?sfo = "\<lambda>w. segment_frq_of (\<lambda>s. lemmatize (language req) (text s)) w (segments req) []"
  show "r \<in> ?L \<longleftrightarrow> r \<in> ?R"
  proof
    assume "r \<in> ?L"
    then obtain w f where wf: "(w, f) \<in> set ?W" "r \<in> set (records_for ?es ?ids (w, f))"
      by auto
    from wf(2) obtain e where e: "e \<in> set ?es" "word e = w"
      "r = make_WordInfoFrequency (zero_fill ?ids f) (sum_list (map snd f)) e"
      by (auto simp: records_for_def)
    from wf(1) have m: "\<exists>s\<in>set (segments req). w \<in> set (lemmatize (language req) (text s))"
      and f: "f = ?sfo w"
      using emitted_entry[OF assms, of w f lemmatize req wim] by simp_all
    have "r = record_of lemmatize req e"
      using e f by (simp add: record_of_def Let_def)
    with e m show "r \<in> ?R" by blast
  next
    assume "r \<in> ?R"
    then obtain e where e: "e \<in> set ?es"
      "\<exists>s\<in>set (segments req). word e \<in> set (lemmatize (language req) (text s))"
      "r = record_of lemmatize req e"
      by blast
    have "(word e, ?sfo (word e)) \<in> set ?W"
      using emitted_entry[OF assms, of "word e" "?sfo (word e)" lemmatize req wim] e by simp
    moreover have "r \<in> set (records_for ?es ?ids (word e, ?sfo (word e)))"
      using e by (simp add: records_for_def record_of_def Let_def)
    ultimately show "r \<in> ?L" by force
  qed
qed

lemma process_text_records:
  assumes "set_iteration set_iter"
    and "read_word_list (url (SegmentWordListUrl.word_list req)) = Inr wim"
  shows "\<exists>out. process_text set_iter read_word_list lemmatize req = Inr out \<and>
     WordInfoFrequencyMeta.metadata out = WordInfoMeta.metadata wim \<and>
     set (WordInfoFrequencyMeta.word_list out) =
       record_of lemmatize req `
         {e \<in> set (WordInfoMeta.word_list wim).
            \<exists>s\<in>set (segments req). word e \<in> set (lemmatize (language req) (text s))}"
  using process_text_eq[of set_iter read_word_list req wim lemmatize, OF assms]
    output_records[OF assms(1), of wim req lemmatize]
  by simp

lemma record_of_simps:
  "word (record_of lemmatize req e) = word e"
  "wikidata_ids (record_of lemmatize req e) = wikidata_ids e"
  "category (record_of lemmatize req e) = category e"
  "segment_frequencies (record_of lemmatize req e) =
     zero_fill (map segment_id (segments req))
       (segment_frq_of (\<lambda>s. lemmatize (language req) (text s)) (word e) (segments req) [])"
  "overall_frequency (record_of lemmatize req e) =
     sum_list (map snd (segment_frq_of (\<lambda>s. lemmatize (language req) (text s)) (word e) (segments req) []))"
  by (simp_all add: record_of_def make_WordInfoFrequency_def Let_def)

text \<open>
  Claim C1 (zero-fill completeness). Whenever the word list could be read, the handler
  returns, and in every record it emits the keys of \<open>segment_frequencies\<close> are exactly
  the segment ids of the request, each once. When the segment ids of the request are
  pairwise distinct, the value stored for a segment is the number of occurrences of the
  record's word among the lemmas of that segment, so it is 0 for a segment in which the
  word does not occur.
\<close>

theorem zero_fill_completeness:
  assumes "set_iteration set_iter"
    and "read_word_list (url (SegmentWordListUrl.word_list req)) = Inr wim"
  shows "\<exists>out. process_text set_iter read_word_list lemmatize req = Inr out \<and>
     (\<forall>r\<in>set (WordInfoFrequencyMeta.word_list out).
        set (map fst (segment_frequencies r)) = set (map segment_id (segments req)) \<and>
        distinct (map fst (segment_frequencies r)) \<and>
        (distinct (map segment_id (segments req)) \<longrightarrow>
           (\<forall>s\<in>set (segments req).
              map_of (segment_frequencies r) (segment_id s) =
                Some (int (count_list (lemmatize (language req) (text s)) (word r))) \<and>
              (word r \<notin> set (lemmatize (language req) (text s)) \<longrightarrow>
                 map_of (segment_frequencies r) (segment_id s) = Some 0))))"
proof -
  let ?lem = "\<lambda>s. lemmatize (language req) (text s)"
  from process_text_records[of set_iter read_word_list req wim lemmatize, OF assms] obtain out where
    out: "process_text set_iter read_word_list lemmatize req = Inr out"
      "set (WordInfoFrequencyMeta.word_list out) =
       record_of lemmatize req `
         {e \<in> set (WordInfoMeta.word_list wim). \<exists>s\<in>set (segments req). word e \<in> set (?lem s)}"
    by blast
  have "set (map fst (segment_frequencies r)) = set (map segment_id (segments req)) \<and>
        distinct (map fst (segment_frequencies r)) \<and>
        (distinct (map segment_id (segments req)) \<longrightarrow>
           (\<forall>s\<in>set (segments req).
              map_of (segment_frequencies r) (segment_id s) = Some (int (count_list (?lem s) (word r))) \<and>
              (word r \<notin> set (?lem s) \<longrightarrow> map_of (segment_frequencies r) (segment_id s) = Some 0)))"
    if "r \<in> set (WordInfoFrequencyMeta.word_list out)" for r
  proof -
    from that out(2) obtain e where r: "r = record_of lemmatize req e" by blast
    have count: "map_of (segment_frequencies r) (segment_id s) = Some (int (count_list (?lem s) (word r)))"
      if "distinct (map segment_id (segments req))" "s \<in> set (segments req)" for s
      using that map_of_segment_frq_of[OF that, of ?lem "word e"]
      by (simp add: r record_of_simps map_of_zero_fill count_notin)
    have zero: "map_of (segment_frequencies r) (segment_id s) = Some 0"
      if "distinct (map segment_id (segments req))" "s \<in> set (segments req)"
        "word r \<notin> set (?lem s)" for s
      using count[OF that(1,2)] that(3) by (simp add: count_notin)
    have "set (map fst (segment_frequencies r)) = set (map segment_id (segments req))"
      using keys_zero_fill by (simp add: r record_of_simps)
    moreover have "distinct (map fst (segment_frequencies r))"
      by (simp only: r record_of_simps distinct_zero_fill)
    ultimately show ?thesis
      using count zero by blast
  qed
  with out(1) show ?thesis by blast
qed

lemma set_iteration_sorted: "set_iteration sorted_list_of_set"
  by (simp add: set_iteration_def)

lemma set_iteration_sorted_rev: "set_iteration (\<lambda>S. rev (sorted_list_of_set S))"
  by (simp add: set_iteration_def)

lemma example_read_ok:
  "example_read (url (SegmentWordListUrl.word_list example_request)) = Inr example_word_list"
  by (simp add: example_read_def)

lemma example_run:
  "process_text sorted_list_of_set example_read example_lemmatize example_request = Inr example_output"
  by code_simp

lemma order_run:
  "process_text sorted_list_of_set example_read example_lemmatize order_request = Inr order_output"
  by code_simp

lemma order_run_rev:
  "process_text (\<lambda>S. rev (sorted_list_of_set S)) example_read example_lemmatize order_request =
   Inr order_output_rev"
  by code_simp

lemma example_ids: "map segment_id (segments example_request) = [''s1'', ''s2'']"
  by (simp add: example_request_def)

theorem zero_fill_completeness_witness:
  "set_iteration sorted_list_of_set \<and>
   example_read (url (SegmentWordListUrl.word_list example_request)) = Inr example_word_list \<and>
   process_text sorted_list_of_set example_read example_lemmatize example_request = Inr example_output \<and>
   WordInfoFrequencyMeta.word_list example_output ! 2 \<in> set (WordInfoFrequencyMeta.word_list example_output) \<and>
   distinct (map segment_id (segments example_request)) \<and>
   segments example_request ! 0 \<in> set (segments example_request) \<and>
   word (WordInfoFrequencyMeta.word_list example_output ! 2) \<notin>
     set (example_lemmatize (language example_request) (text (segments example_request ! 0))) \<and>
   set (map fst (segment_frequencies (WordInfoFrequencyMeta.word_list example_output ! 2))) =
     set (map segment_id (segments example_request)) \<and>
   distinct (map fst (segment_frequencies (WordInfoFrequencyMeta.word_list example_output ! 2))) \<and>
   map_of (segment_frequencies (WordInfoFrequencyMeta.word_list example_output ! 2))
     (segment_id (segments example_request ! 0)) = Some 0"
proof -
  let ?r = "WordInfoFrequencyMeta.word_list example_output ! 2"
  let ?s = "segments example_request ! 0"
  from zero_fill_completeness[of sorted_list_of_set example_read example_request
      example_word_list example_lemmatize, OF set_iteration_sorted example_read_ok]
  obtain out where out:
    "process_text sorted_list_of_set example_read example_lemmatize example_request = Inr out"
    and body: "\<And>r. r \<in> set (WordInfoFrequencyMeta.word_list out) \<Longrightarrow>
        set (map fst (segment_frequencies r)) = set (map segment_id (segments example_request)) \<and>
        distinct (map fst (segment_frequencies r)) \<and>
        (distinct (map segment_id (segments example_request)) \<longrightarrow>
           (\<forall>s\<in>set (segments example_request).
              map_of (segment_frequencies r) (segment_id s) =
                Some (int (count_list (example_lemmatize (language example_request) (text s)) (word r))) \<and>
              (word r \<notin> set (example_lemmatize (language example_request) (text s)) \<longrightarrow>
                 map_of (segment_frequencies r) (segment_id s) = Some 0)))"
    by blast
  from out example_run have eq: "out = example_output" by simp
  have r: "?r \<in> set (WordInfoFrequencyMeta.word_list example_output)"
    by (simp add: example_output_def)
  have d: "distinct (map segment_id (segments example_request))"
    by (simp add: example_ids)
  have s: "?s \<in> set (segments example_request)"
    by (simp add: example_request_def)
  have n: "word ?r \<notin> set (example_lemmatize (language example_request) (text ?s))"
    by (simp add: example_output_def example_request_def example_lemmatize_def)
  from body[unfolded eq, OF r] d s n set_iteration_sorted example_read_ok example_run r
  show ?thesis by blast
qed

lemma sum_list_positive:
  fixes xs :: "int list"
  shows "xs \<noteq> [] \<Longrightarrow> \<forall>x\<in>set xs. 0 < x \<Longrightarrow> 0 < sum_list xs"
  by (induction xs) (auto simp: add_pos_nonneg sum_list_nonneg less_imp_le)

lemma segment_frq_of_keys_subset:
  "fst ` set (segment_frq_of lem w segs []) \<subseteq> set (map segment_id segs)"
  by (auto simp: keys_segment_frq_of)

lemma overall_frequency_record_of:
  "overall_frequency (record_of lemmatize req e) =
   sum_list (map snd (segment_frequencies (record_of lemmatize req e)))"
proof -
  let ?f = "segment_frq_of (\<lambda>s. lemmatize (language req) (text s)) (word e) (segments req) []"
  have "distinct (map fst ?f)"
    by (rule distinct_segment_frq_of) simp
  moreover have "set (map fst ?f) \<subseteq> set (map segment_id (segments req))"
    using segment_frq_of_keys_subset[of "\<lambda>s. lemmatize (language req) (text s)" "word e" "segments req"]
    by simp
  ultimately have "sum_list (map snd (zero_fill (map segment_id (segments req)) ?f)) =
      sum_list (map snd ?f)"
    by (rule sum_list_zero_fill)
  then show ?thesis by (simp only: record_of_simps)
qed

lemma record_of_positive:
  assumes "s \<in> set (segments req)" and "word e \<in> set (lemmatize (language req) (text s))"
  shows "0 < overall_frequency (record_of lemmatize req e)"
    and "\<exists>c. (segment_id s, c) \<in> set (segment_frequencies (record_of lemmatize req e)) \<and> 0 < c"
proof -
  let ?lem = "\<lambda>s. lemmatize (language req) (text s)"
  let ?f = "segment_frq_of ?lem (word e) (segments req) []"
  have pos: "\<And>k c. (k, c) \<in> set ?f \<Longrightarrow> 0 < c"
    using segment_frq_of_positive[of _ _ ?lem "word e" "segments req" "[]"] by simp
  have "segment_id s \<in> fst ` set ?f"
    using assms by (auto simp: keys_segment_frq_of)
  then obtain c where c: "(segment_id s, c) \<in> set ?f" by auto
  then have ne: "?f \<noteq> []" by auto
  have "\<forall>x\<in>set (map snd ?f). 0 < x" using pos by auto
  with ne have "0 < sum_list (map snd ?f)"
    by (intro sum_list_positive) simp_all
  then show "0 < overall_frequency (record_of lemmatize req e)"
    by (simp only: record_of_simps)
  have "distinct (map fst ?f)" by (rule distinct_segment_frq_of) simp
  with c have "map_of ?f (segment_id s) = Some c" by simp
  moreover have "segment_id s \<in> set (map segment_id (segments req))"
    using assms(1) by simp
  ultimately have "map_of (zero_fill (map segment_id (segments req)) ?f) (segment_id s) = Some c"
    by (simp only: map_of_zero_fill if_True option.case)
  then have "(segment_id s, c) \<in> set (zero_fill (map segment_id (segments req)) ?f)"
    by (rule map_of_SomeD)
  with pos[OF c] show "\<exists>c. (segment_id s, c) \<in> set (segment_frequencies (record_of lemmatize req e)) \<and> 0 < c"
    by (auto simp only: record_of_simps)
qed

text \<open>
  Claim C2 (conservation). In every emitted record \<open>overall_frequency\<close> is the sum of the
  values of the zero-filled \<open>segment_frequencies\<close>; when the segment ids are pairwise
  distinct, it is the number of occurrences of the word among the lemmas of all segments.
\<close>

theorem conservation:
  assumes "set_iteration set_iter"
    and "read_word_list (url (SegmentWordListUrl.word_list req)) = Inr wim"
  shows "\<exists>out. process_text set_iter read_word_list lemmatize req = Inr out \<and>
     (\<forall>r\<in>set (WordInfoFrequencyMeta.word_list out).
        overall_frequency r = sum_list (map snd (segment_frequencies r)) \<and>
        (distinct (map segment_id (segments req)) \<longrightarrow>
           overall_frequency r =
             (\<Sum>s\<leftarrow>segments req. int (count_list (lemmatize (language req) (text s)) (word r)))))"
proof -
  let ?lem = "\<lambda>s. lemmatize (language req) (text s)"
  from process_text_records[of set_iter read_word_list req wim lemmatize, OF assms] obtain out where
    out: "process_text set_iter read_word_list lemmatize req = Inr out"
      "set (WordInfoFrequencyMeta.word_list out) =
       record_of lemmatize req `
         {e \<in> set (WordInfoMeta.word_list wim). \<exists>s\<in>set (segments req). word e \<in> set (?lem s)}"
    by blast
  have "overall_frequency r = sum_list (map snd (segment_frequencies r)) \<and>
        (distinct (map segment_id (segments req)) \<longrightarrow>
           overall_frequency r = (\<Sum>s\<leftarrow>segments req. int (count_list (?lem s) (word r))))"
    if "r \<in> set (WordInfoFrequencyMeta.word_list out)" for r
  proof -
    from that out(2) obtain e where r: "r = record_of lemmatize req e" by blast
    show ?thesis
      unfolding r using overall_frequency_record_of[of lemmatize req e]
        sum_segment_frq_of[of "segments req" ?lem "word e"]
      by (simp add: record_of_simps)
  qed
  with out(1) show ?thesis by blast
qed

text \<open>
  Claim C3 (omission law). A word that has no occurrence among the lemmas of any segment
  is the word of no emitted record; every entry of the word list whose word occurs in some
  segment is emitted, with its own identifiers and category; and every emitted record has
  a positive \<open>overall_frequency\<close> and a positive count for some segment.
\<close>

theorem omission_law:
  assumes "set_iteration set_iter"
    and "read_word_list (url (SegmentWordListUrl.word_list req)) = Inr wim"
  shows "\<exists>out. process_text set_iter read_word_list lemmatize req = Inr out \<and>
     (\<forall>w. (\<Sum>s\<leftarrow>segments req. count_list (lemmatize (language req) (text s)) w) = 0 \<longrightarrow>
          w \<notin> word ` set (WordInfoFrequencyMeta.word_list out)) \<and>
     (\<forall>e\<in>set (WordInfoMeta.word_list wim).
        (\<exists>s\<in>set (segments req). 0 < count_list (lemmatize (language req) (text s)) (word e)) \<longrightarrow>
        (\<exists>r\<in>set (WordInfoFrequencyMeta.word_list out).
           word r = word e \<and> wikidata_ids r = wikidata_ids e \<and> category r = category e)) \<and>
     (\<forall>r\<in>set (WordInfoFrequencyMeta.word_list out).
        0 < overall_frequency r \<and> (\<exists>k c. (k, c) \<in> set (segment_frequencies r) \<and> 0 < c))"
proof -
  let ?lem = "\<lambda>s. lemmatize (language req) (text s)"
  from process_text_records[of set_iter read_word_list req wim lemmatize, OF assms] obtain out where
    out: "process_text set_iter read_word_list lemmatize req = Inr out"
      "set (WordInfoFrequencyMeta.word_list out) =
       record_of lemmatize req `
         {e \<in> set (WordInfoMeta.word_list wim). \<exists>s\<in>set (segments req). word e \<in> set (?lem s)}"
    by blast
  have a: "w \<notin> word ` set (WordInfoFrequencyMeta.word_list out)"
    if "(\<Sum>s\<leftarrow>segments req. count_list (?lem s) w) = 0" for w
  proof
    assume "w \<in> word ` set (WordInfoFrequencyMeta.word_list out)"
    then obtain r where "r \<in> set (WordInfoFrequencyMeta.word_list out)" "w = word r"
      by blast
    with out(2) obtain e where "r = record_of lemmatize req e"
      "\<exists>s\<in>set (segments req). word e \<in> set (?lem s)" by blast
    with \<open>w = word r\<close> obtain s where "s \<in> set (segments req)" "w \<in> set (?lem s)"
      by (auto simp: record_of_simps)
    moreover from that have "\<forall>s\<in>set (segments req). count_list (?lem s) w = 0"
      by (simp add: sum_list_eq_0_iff)
    ultimately show False by (auto simp: count_list_0_iff)
  qed
  have b: "\<exists>r\<in>set (WordInfoFrequencyMeta.word_list out).
           word r = word e \<and> wikidata_ids r = wikidata_ids e \<and> category r = category e"
    if "e \<in> set (WordInfoMeta.word_list wim)"
      "\<exists>s\<in>set (segments req). 0 < count_list (?lem s) (word e)" for e
  proof -
    from that(2) obtain s where "s \<in> set (segments req)" "count_list (?lem s) (word e) \<noteq> 0"
      by auto
    then have "\<exists>s\<in>set (segments req). word e \<in> set (?lem s)"
      by (auto simp: count_list_0_iff)
    with that(1) have "record_of lemmatize req e \<in> set (WordInfoFrequencyMeta.word_list out)"
      unfolding out(2) by blast
    then show ?thesis
      by (intro bexI[of _ "record_of lemmatize req e"]) (simp_all add: record_of_simps)
  qed
  have c: "0 < overall_frequency r \<and> (\<exists>k c. (k, c) \<in> set (segment_frequencies r) \<and> 0 < c)"
    if "r \<in> set (WordInfoFrequencyMeta.word_list out)" for r
  proof -
    from that out(2) obtain e s where r: "r = record_of lemmatize req e"
      and s: "s \<in> set (segments req)" "word e \<in> set (?lem s)" by blast
    from record_of_positive[of s req e lemmatize, OF s] show ?thesis unfolding r by blast
  qed
  from out(1) a b c show ?thesis by blast
qed

text \<open>
  Claim C4 (homograph fan-out). Any two emitted records with the same word carry the same
  \<open>segment_frequencies\<close> (same keys in the same order, same values) and the same
  \<open>overall_frequency\<close>; and for two entries of the word list with the same word, occurring
  in some segment, both are emitted, whatever their identifiers and categories are.
\<close>

theorem homograph_fan_out:
  assumes "set_iteration set_iter"
    and "read_word_list (url (SegmentWordListUrl.word_list req)) = Inr wim"
  shows "\<exists>out. process_text set_iter read_word_list lemmatize req = Inr out \<and>
     (\<forall>r1\<in>set (WordInfoFrequencyMeta.word_list out).
      \<forall>r2\<in>set (WordInfoFrequencyMeta.word_list out).
        word r1 = word r2 \<longrightarrow>
        segment_frequencies r1 = segment_frequencies r2 \<and>
        overall_frequency r1 = overall_frequency r2) \<and>
     (\<forall>e1\<in>set (WordInfoMeta.word_list wim). \<forall>e2\<in>set (WordInfoMeta.word_list wim).
        word e1 = word e2 \<and>
        (\<exists>s\<in>set (segments req). word e1 \<in> set (lemmatize (language req) (text s))) \<longrightarrow>
        (\<exists>r1\<in>set (WordInfoFrequencyMeta.word_list out).
         \<exists>r2\<in>set (WordInfoFrequencyMeta.word_list out).
           WordInfo.truncate r1 = e1 \<and> WordInfo.truncate r2 = e2 \<and>
           segment_frequencies r1 = segment_frequencies r2 \<and>
           overall_frequency r1 = overall_frequency r2))"
proof -
  let ?lem = "\<lambda>s. lemmatize (language req) (text s)"
  from process_text_records[of set_iter read_word_list req wim lemmatize, OF assms] obtain out where
    out: "process_text set_iter read_word_list lemmatize req = Inr out"
      "set (WordInfoFrequencyMeta.word_list out) =
       record_of lemmatize req `
         {e \<in> set (WordInfoMeta.word_list wim). \<exists>s\<in>set (segments req). word e \<in> set (?lem s)}"
    by blast
  have a: "segment_frequencies r1 = segment_frequencies r2 \<and>
        overall_frequency r1 = overall_frequency r2"
    if "r1 \<in> set (WordInfoFrequencyMeta.word_list out)"
      "r2 \<in> set (WordInfoFrequencyMeta.word_list out)" "word r1 = word r2" for r1 r2
  proof -
    from that(1,2) out(2) obtain e1 e2 where "r1 = record_of lemmatize req e1"
      "r2 = record_of lemmatize req e2" by blast
    with that(3) show ?thesis by (simp add: record_of_simps)
  qed
  have b: "\<exists>r1\<in>set (WordInfoFrequencyMeta.word_list out).
         \<exists>r2\<in>set (WordInfoFrequencyMeta.word_list out).
           WordInfo.truncate r1 = e1 \<and> WordInfo.truncate r2 = e2 \<and>
           segment_frequencies r1 = segment_frequencies r2 \<and>
           overall_frequency r1 = overall_frequency r2"
    if "e1 \<in> set (WordInfoMeta.word_list wim)" "e2 \<in> set (WordInfoMeta.word_list wim)"
      "word e1 = word e2" "\<exists>s\<in>set (segments req). word e1 \<in> set (?lem s)" for e1 e2
  proof -
    have "record_of lemmatize req e1 \<in> set (WordInfoFrequencyMeta.word_list out)"
      "record_of lemmatize req e2 \<in> set (WordInfoFrequencyMeta.word_list out)"
      unfolding out(2) using that by auto
    moreover have "WordInfo.truncate (record_of lemmatize req e) = e" for e
      by (simp add: WordInfo.truncate_def record_of_simps)
    ultimately show ?thesis
      using that(3) by (intro bexI[of _ "record_of lemmatize req e1"]
          bexI[of _ "record_of lemmatize req e2"]) (simp_all add: record_of_simps)
  qed
  from out(1) a b show ?thesis by blast
qed

lemma example_result:
  "\<exists>out. process_text sorted_list_of_set example_read example_lemmatize example_request = Inr out \<and> P out
   \<Longrightarrow> P example_output"
  by (simp add: example_run)

lemma example_oak_record:
  "WordInfoFrequencyMeta.word_list example_output ! 0 \<in> set (WordInfoFrequencyMeta.word_list example_output)"
  "WordInfoFrequencyMeta.word_list example_output ! 1 \<in> set (WordInfoFrequencyMeta.word_list example_output)"
  by (simp_all add: example_output_def)

lemma example_entries:
  "WordInfoMeta.word_list example_word_list ! 0 \<in> set (WordInfoMeta.word_list example_word_list)"
  "WordInfoMeta.word_list example_word_list ! 2 \<in> set (WordInfoMeta.word_list example_word_list)"
  by (simp_all add: example_word_list_def)

lemma example_segment: "segments example_request ! 0 \<in> set (segments example_request)"
  by (simp add: example_request_def)

theorem conservation_witness:
  "set_iteration sorted_list_of_set \<and>
   example_read (url (SegmentWordListUrl.word_list example_request)) = Inr example_word_list \<and>
   process_text sorted_list_of_set example_read example_lemmatize example_request = Inr example_output \<and>
   WordInfoFrequencyMeta.word_list example_output ! 0 \<in> set (WordInfoFrequencyMeta.word_list example_output) \<and>
   distinct (map segment_id (segments example_request)) \<and>
   overall_frequency (WordInfoFrequencyMeta.word_list example_output ! 0) = 2 \<and>
   overall_frequency (WordInfoFrequencyMeta.word_list example_output ! 0) =
     sum_list (map snd (segment_frequencies (WordInfoFrequencyMeta.word_list example_output ! 0))) \<and>
   overall_frequency (WordInfoFrequencyMeta.word_list example_output ! 0) =
     (\<Sum>s\<leftarrow>segments example_request.
        int (count_list (example_lemmatize (language example_request) (text s))
               (word (WordInfoFrequencyMeta.word_list example_output ! 0))))"
proof -
  note body = example_result[OF conservation[of sorted_list_of_set example_read example_request
        example_word_list example_lemmatize, OF set_iteration_sorted example_read_ok]]
  have d: "distinct (map segment_id (segments example_request))"
    by (simp add: example_ids)
  have "overall_frequency (WordInfoFrequencyMeta.word_list example_output ! 0) = 2"
    by (simp add: example_output_def)
  with bspec[OF body example_oak_record(1)] d set_iteration_sorted example_read_ok example_run
    example_oak_record(1)
  show ?thesis by blast
qed

theorem omission_law_witness:
  "set_iteration sorted_list_of_set \<and>
   example_read (url (SegmentWordListUrl.word_list example_request)) = Inr example_word_list \<and>
   process_text sorted_list_of_set example_read example_lemmatize example_request = Inr example_output \<and>
   (\<Sum>s\<leftarrow>segments example_request.
      count_list (example_lemmatize (language example_request) (text s)) ''pine'') = 0 \<and>
   ''pine'' \<notin> word ` set (WordInfoFrequencyMeta.word_list example_output) \<and>
   WordInfoMeta.word_list example_word_list ! 0 \<in> set (WordInfoMeta.word_list example_word_list) \<and>
   (\<exists>s\<in>set (segments example_request).
      0 < count_list (example_lemmatize (language example_request) (text s))
            (word (WordInfoMeta.word_list example_word_list ! 0))) \<and>
   (\<exists>r\<in>set (WordInfoFrequencyMeta.word_list example_output).
      word r = word (WordInfoMeta.word_list example_word_list ! 0) \<and>
      wikidata_ids r = wikidata_ids (WordInfoMeta.word_list example_word_list ! 0) \<and>
      category r = category (WordInfoMeta.word_list example_word_list ! 0)) \<and>
   WordInfoFrequencyMeta.word_list example_output ! 0 \<in> set (WordInfoFrequencyMeta.word_list example_output) \<and>
   0 < overall_frequency (WordInfoFrequencyMeta.word_list example_output ! 0) \<and>
   (\<exists>k c. (k, c) \<in> set (segment_frequencies (WordInfoFrequencyMeta.word_list example_output ! 0)) \<and> 0 < c)"
proof -
  note body = example_result[OF omission_law[of sorted_list_of_set example_read example_request
        example_word_list example_lemmatize, OF set_iteration_sorted example_read_ok]]
  have z: "(\<Sum>s\<leftarrow>segments example_request.
      count_list (example_lemmatize (language example_request) (text s)) ''pine'') = 0"
    by (simp add: example_request_def example_lemmatize_def)
  have m: "\<exists>s\<in>set (segments example_request).
      0 < count_list (example_lemmatize (language example_request) (text s))
            (word (WordInfoMeta.word_list example_word_list ! 0))"
    by (simp add: example_request_def example_lemmatize_def example_word_list_def)
  from body have a: "''pine'' \<notin> word ` set (WordInfoFrequencyMeta.word_list example_output)"
    using z by blast
  from body example_entries(1) m have b: "\<exists>r\<in>set (WordInfoFrequencyMeta.word_list example_output).
      word r = word (WordInfoMeta.word_list example_word_list ! 0) \<and>
      wikidata_ids r = wikidata_ids (WordInfoMeta.word_list example_word_list ! 0) \<and>
      category r = category (WordInfoMeta.word_list example_word_list ! 0)"
    by blast
  from body example_oak_record(1) have c:
    "0 < overall_frequency (WordInfoFrequencyMeta.word_list example_output ! 0) \<and>
     (\<exists>k c. (k, c) \<in> set (segment_frequencies (WordInfoFrequencyMeta.word_list example_output ! 0)) \<and> 0 < c)"
    by blast
  from a b c z m set_iteration_sorted example_read_ok example_run example_entries(1)
    example_oak_record(1)
  show ?thesis by blast
qed

theorem homograph_fan_out_witness:
  "set_iteration sorted_list_of_set \<and>
   example_read (url (SegmentWordListUrl.word_list example_request)) = Inr example_word_list \<and>
   process_text sorted_list_of_set example_read example_lemmatize example_request = Inr example_output \<and>
   WordInfoFrequencyMeta.word_list example_output ! 0 \<in> set (WordInfoFrequencyMeta.word_list example_output) \<and>
   WordInfoFrequencyMeta.word_list example_output ! 1 \<in> set (WordInfoFrequencyMeta.word_list example_output) \<and>
   word (WordInfoFrequencyMeta.word_list example_output ! 0) =
     word (WordInfoFrequencyMeta.word_list example_output ! 1) \<and>
   category (WordInfoFrequencyMeta.word_list example_output ! 0) \<noteq>
     category (WordInfoFrequencyMeta.word_list example_output ! 1) \<and>
   segment_frequencies (WordInfoFrequencyMeta.word_list example_output ! 0) =
     segment_frequencies (WordInfoFrequencyMeta.word_list example_output ! 1) \<and>
   overall_frequency (WordInfoFrequencyMeta.word_list example_output ! 0) =
     overall_frequency (WordInfoFrequencyMeta.word_list example_output ! 1) \<and>
   WordInfoMeta.word_list example_word_list ! 0 \<in> set (WordInfoMeta.word_list example_word_list) \<and>
   WordInfoMeta.word_list example_word_list ! 2 \<in> set (WordInfoMeta.word_list example_word_list) \<and>
   word (WordInfoMeta.word_list example_word_list ! 0) =
     word (WordInfoMeta.word_list example_word_list ! 2) \<and>
   (\<exists>s\<in>set (segments example_request).
      word (WordInfoMeta.word_list example_word_list ! 0) \<in>
        set (example_lemmatize (language example_request) (text s))) \<and>
   (\<exists>r1\<in>set (WordInfoFrequencyMeta.word_list example_output).
    \<exists>r2\<in>set (WordInfoFrequencyMeta.word_list example_output).
      WordInfo.truncate r1 = WordInfoMeta.word_list example_word_list ! 0 \<and>
      WordInfo.truncate r2 = WordInfoMeta.word_list example_word_list ! 2 \<and>
      segment_frequencies r1 = segment_frequencies r2 \<and>
      overall_frequency r1 = overall_frequency r2)"
proof -
  note body = example_result[OF homograph_fan_out[of sorted_list_of_set example_read example_request
        example_word_list example_lemmatize, OF set_iteration_sorted example_read_ok]]
  have w: "word (WordInfoFrequencyMeta.word_list example_output ! 0) =
     word (WordInfoFrequencyMeta.word_list example_output ! 1)"
    and c: "category (WordInfoFrequencyMeta.word_list example_output ! 0) \<noteq>
     category (WordInfoFrequencyMeta.word_list example_output ! 1)"
    by (simp_all add: example_output_def)
  have e: "word (WordInfoMeta.word_list example_word_list ! 0) =
     word (WordInfoMeta.word_list example_word_list ! 2)"
    by (simp add: example_word_list_def)
  have m: "\<exists>s\<in>set (segments example_request).
      word (WordInfoMeta.word_list example_word_list ! 0) \<in>
        set (example_lemmatize (language example_request) (text s))"
    by (simp add: example_request_def example_lemmatize_def example_word_list_def)
  from body example_oak_record w have a:
    "segment_frequencies (WordInfoFrequencyMeta.word_list example_output ! 0) =
       segment_frequencies (WordInfoFrequencyMeta.word_list example_output ! 1) \<and>
     overall_frequency (WordInfoFrequencyMeta.word_list example_output ! 0) =
       overall_frequency (WordInfoFrequencyMeta.word_list example_output ! 1)"
    by blast
  from body example_entries e m have b:
    "\<exists>r1\<in>set (WordInfoFrequencyMeta.word_list example_output).
     \<exists>r2\<in>set (WordInfoFrequencyMeta.word_list example_output).
      WordInfo.truncate r1 = WordInfoMeta.word_list example_word_list ! 0 \<and>
      WordInfo.truncate r2 = WordInfoMeta.word_list example_word_list ! 2 \<and>
      segment_frequencies r1 = segment_frequencies r2 \<and>
      overall_frequency r1 = overall_frequency r2"
    by blast
  from a b w c e m set_iteration_sorted example_read_ok example_run example_oak_record
    example_entries
  show ?thesis by blast
qed

lemma emitted_no_words:
  assumes "set_iteration set_iter" and "WordInfoMeta.word_list wim = []"
  shows "emitted set_iter lemmatize req wim = []"
  using emitted_keys[OF assms(1), of lemmatize req wim] assms(2) by simp

text \<open>
  Claim C7 (empty inputs). When the word list could be read, a request without segments
  is answered with the metadata and an empty \<open>word_list\<close>, whatever the word list holds;
  and so is any request when the word list has no entries. No exception is raised.
\<close>

theorem empty_inputs:
  assumes "read_word_list (url (SegmentWordListUrl.word_list req)) = Inr wim"
    and "segments req = [] \<or> (WordInfoMeta.word_list wim = [] \<and> set_iteration set_iter)"
  shows "process_text set_iter read_word_list lemmatize req =
     Inr \<lparr>WordInfoFrequencyMeta.metadata = WordInfoMeta.metadata wim,
          WordInfoFrequencyMeta.word_list = []\<rparr>"
  using assms(2)
proof
  assume seg: "segments req = []"
  from group_entries_eq[of "WordInfoMeta.word_list wim" "[]"] obtain G where
    "group_entries (WordInfoMeta.word_list wim) [] = Inr G" by blast
  with assms(1) seg show ?thesis
    by (simp add: process_text_def)
next
  assume "WordInfoMeta.word_list wim = [] \<and> set_iteration set_iter"
  then have e: "WordInfoMeta.word_list wim = []" and it: "set_iteration set_iter"
    by simp_all
  show ?thesis
    using process_text_eq[of set_iter read_word_list req wim lemmatize, OF it assms(1)]
    by (simp add: emitted_no_words[OF it e])
qed

theorem empty_inputs_witness:
  "example_read (url (SegmentWordListUrl.word_list (example_request\<lparr>segments := []\<rparr>))) =
     Inr example_word_list \<and>
   segments (example_request\<lparr>segments := []\<rparr>) = [] \<and>
   process_text (\<lambda>S. []) example_read example_lemmatize (example_request\<lparr>segments := []\<rparr>) =
     Inr \<lparr>WordInfoFrequencyMeta.metadata = WordInfoMeta.metadata example_word_list,
          WordInfoFrequencyMeta.word_list = []\<rparr> \<and>
   (\<lambda>u. Inr (example_word_list\<lparr>WordInfoMeta.word_list := []\<rparr>))
       (url (SegmentWordListUrl.word_list example_request)) =
     Inr (example_word_list\<lparr>WordInfoMeta.word_list := []\<rparr>) \<and>
   WordInfoMeta.word_list (example_word_list\<lparr>WordInfoMeta.word_list := []\<rparr>) = [] \<and>
   set_iteration sorted_list_of_set \<and>
   process_text sorted_list_of_set (\<lambda>u. Inr (example_word_list\<lparr>WordInfoMeta.word_list := []\<rparr>))
       example_lemmatize example_request =
     Inr \<lparr>WordInfoFrequencyMeta.metadata =
            WordInfoMeta.metadata (example_word_list\<lparr>WordInfoMeta.word_list := []\<rparr>),
          WordInfoFrequencyMeta.word_list = []\<rparr>"
proof -
  have r1: "example_read (url (SegmentWordListUrl.word_list (example_request\<lparr>segments := []\<rparr>))) =
     Inr example_word_list"
    by (simp add: example_read_def)
  have s1: "segments (example_request\<lparr>segments := []\<rparr>) = []" by simp
  have r2: "(\<lambda>u. Inr (example_word_list\<lparr>WordInfoMeta.word_list := []\<rparr>))
       (url (SegmentWordListUrl.word_list example_request)) =
     Inr (example_word_list\<lparr>WordInfoMeta.word_list := []\<rparr>)" by simp
  have s2: "WordInfoMeta.word_list (example_word_list\<lparr>WordInfoMeta.word_list := []\<rparr>) = []"
    by simp
  note a = empty_inputs[of example_read "example_request\<lparr>segments := []\<rparr>" example_word_list
      "\<lambda>S. []" example_lemmatize, OF r1 disjI1[OF s1]]
  note b = empty_inputs[of "\<lambda>u. Inr (example_word_list\<lparr>WordInfoMeta.word_list := []\<rparr>)"
      example_request "example_word_list\<lparr>WordInfoMeta.word_list := []\<rparr>"
      sorted_list_of_set example_lemmatize, OF r2 disjI2[OF conjI[OF s2 set_iteration_sorted]]]
  from a b r1 s1 r2 s2 set_iteration_sorted show ?thesis by blast
qed

text \<open>
  Claim C10 (metadata pass-through). Whatever the handler returns carries the metadata of
  the word list that was read, unchanged; and when the word list could be read, the
  handler does return.
\<close>

theorem metadata_passthrough:
  assumes "read_word_list (url (SegmentWordListUrl.word_list req)) = Inr wim"
  shows "(\<forall>out. process_text set_iter read_word_list lemmatize req = Inr out \<longrightarrow>
            WordInfoFrequencyMeta.metadata out = WordInfoMeta.metadata wim) \<and>
         (set_iteration set_iter \<longrightarrow>
            (\<exists>out. process_text set_iter read_word_list lemmatize req = Inr out \<and>
               WordInfoFrequencyMeta.metadata out = WordInfoMeta.metadata wim))"
proof (intro conjI allI impI)
  fix out
  assume "process_text set_iter read_word_list lemmatize req = Inr out"
  with assms show "WordInfoFrequencyMeta.metadata out = WordInfoMeta.metadata wim"
    by (auto simp: process_text_def Let_def split: sum.splits)
next
  assume "set_iteration set_iter"
  from process_text_eq[of set_iter read_word_list req wim lemmatize, OF this assms]
  show "\<exists>out. process_text set_iter read_word_list lemmatize req = Inr out \<and>
               WordInfoFrequencyMeta.metadata out = WordInfoMeta.metadata wim"
    by simp
qed

theorem metadata_passthrough_witness:
  "example_read (url (SegmentWordListUrl.word_list example_request)) = Inr example_word_list \<and>
   set_iteration sorted_list_of_set \<and>
   process_text sorted_list_of_set example_read example_lemmatize example_request = Inr example_output \<and>
   WordInfoFrequencyMeta.metadata example_output = WordInfoMeta.metadata example_word_list \<and>
   name (WordInfoFrequencyMeta.metadata example_output) = ''trees''"
proof -
  from metadata_passthrough[of example_read example_request example_word_list
      sorted_list_of_set example_lemmatize, OF example_read_ok] example_run
  have "WordInfoFrequencyMeta.metadata example_output = WordInfoMeta.metadata example_word_list"
    by blast
  moreover have "name (WordInfoFrequencyMeta.metadata example_output) = ''trees''"
    by (simp add: example_output_def)
  ultimately show ?thesis
    using example_read_ok set_iteration_sorted example_run by blast
qed



lemma word_records_for: "r \<in> set (records_for es ids p) \<Longrightarrow> word r = fst p"
  by (auto simp: records_for_def make_WordInfoFrequency_def)

lemma words_of_blocks:
  "r \<in> set (concat (map (records_for es ids) W)) \<Longrightarrow> word r \<in> fst ` set W"
  by (auto dest: word_records_for)

lemma truncate_records_for:
  "map WordInfo.truncate (records_for es ids p) = filter (\<lambda>e. word e = fst p) es"
proof -
  have "WordInfo.truncate (make_WordInfoFrequency zf ov e) = e" for zf ov e
    by (simp add: WordInfo.truncate_def make_WordInfoFrequency_def)
  then show ?thesis
    by (simp add: records_for_def comp_def)
qed

lemma filter_blocks:
  "distinct (map fst W) \<Longrightarrow>
   filter (\<lambda>r. word r = w) (concat (map (records_for es ids) W)) =
   (case map_of W w of None \<Rightarrow> [] | Some f \<Rightarrow> records_for es ids (w, f))"
proof (induction W)
  case Nil
  then show ?case by simp
next
  case (Cons p W)
  obtain w' f' where p: "p = (w', f')" by (cases p)
  have IH: "filter (\<lambda>r. word r = w) (concat (map (records_for es ids) W)) =
      (case map_of W w of None \<Rightarrow> [] | Some f \<Rightarrow> records_for es ids (w, f))"
    using Cons by simp
  show ?case
  proof (cases "w' = w")
    case True
    have "filter (\<lambda>r. word r = w) (records_for es ids p) = records_for es ids p"
      using True by (intro filter_True) (auto simp: p dest: word_records_for)
    moreover have "map_of W w = None"
      using Cons.prems True by (simp add: p map_of_eq_None_iff)
    ultimately show ?thesis
      using True IH by (simp add: p)
  next
    case False
    have "filter (\<lambda>r. word r = w) (records_for es ids p) = []"
      using False by (auto simp: p filter_empty_conv dest: word_records_for)
    with False IH show ?thesis by (simp add: p)
  qed
qed

lemma truncate_blocks:
  "map WordInfo.truncate (concat (map (records_for es ids) W)) =
   concat (map (\<lambda>w. filter (\<lambda>e. word e = w) es) (map fst W))"
  by (induction W) (simp_all add: truncate_records_for)

lemma set_first_seen: "set (first_seen xs) = set xs"
  by (induction xs) auto

lemma distinct_first_seen: "distinct (first_seen xs)"
  by (induction xs) (auto simp: set_first_seen)

lemma first_seen_append:
  "first_seen (xs @ ys) = first_seen xs @ filter (\<lambda>y. y \<notin> set xs) (first_seen ys)"
  by (induction xs) (auto intro: filter_cong)

lemma first_seen_distinct: "distinct xs \<Longrightarrow> first_seen xs = xs"
  by (induction xs) (auto simp: filter_id_conv)

lemma keys_fold_record_count_order:
  "map fst (fold (record_count sid cnt) ws d) =
   map fst d @ filter (\<lambda>w. w \<notin> fst ` set d) (first_seen ws)"
proof (induction ws arbitrary: d)
  case Nil
  then show ?case by simp
next
  case (Cons a ws)
  let ?d = "record_count sid cnt a d"
  have IH: "map fst (fold (record_count sid cnt) ws ?d) =
      map fst ?d @ filter (\<lambda>w. w \<notin> fst ` set ?d) (first_seen ws)"
    by (rule Cons.IH)
  show ?case
  proof (cases "a \<in> fst ` set d")
    case True
    then have k: "map fst ?d = map fst d" by (simp add: keys_record_count)
    have "set (map fst ?d) = set (map fst d)" using k by (rule arg_cong)
    then have s: "fst ` set ?d = fst ` set d" by simp
    have "filter (\<lambda>w. w \<notin> fst ` set d) (filter (\<lambda>y. y \<noteq> a) (first_seen ws)) =
        filter (\<lambda>w. w \<notin> fst ` set d) (first_seen ws)"
      using True by (auto intro: filter_cong)
    with True show ?thesis by (simp add: IH k s)
  next
    case False
    then have k: "map fst ?d = map fst d @ [a]" by (simp add: keys_record_count)
    have "set (map fst ?d) = set (map fst d @ [a])" using k by (rule arg_cong)
    then have s: "fst ` set ?d = insert a (fst ` set d)" by simp
    have "filter (\<lambda>w. w \<notin> insert a (fst ` set d)) (first_seen ws) =
        filter (\<lambda>w. w \<notin> fst ` set d) (filter (\<lambda>y. y \<noteq> a) (first_seen ws))"
      by (auto intro: filter_cong)
    with False show ?thesis by (simp add: IH k s)
  qed
qed

lemma keys_fold_segment_step_order:
  "map fst (fold (segment_step set_iter U lem) segs d) =
   map fst d @ filter (\<lambda>w. w \<notin> fst ` set d)
     (first_seen (concat (map (\<lambda>s. set_iter (U \<inter> set (lem s))) segs)))"
proof (induction segs arbitrary: d)
  case Nil
  then show ?case by simp
next
  case (Cons s segs)
  let ?L = "set_iter (U \<inter> set (lem s))"
  let ?E = "concat (map (\<lambda>s. set_iter (U \<inter> set (lem s))) segs)"
  let ?d = "segment_step set_iter U lem s d"
  have k: "map fst ?d = map fst d @ filter (\<lambda>w. w \<notin> fst ` set d) (first_seen ?L)"
    by (simp add: segment_step_def keys_fold_record_count_order)
  have "set (map fst ?d) = set (map fst d @ filter (\<lambda>w. w \<notin> fst ` set d) (first_seen ?L))"
    using k by (rule arg_cong)
  then have s: "fst ` set ?d = fst ` set d \<union> set ?L"
    by (auto simp: set_first_seen)
  have "filter (\<lambda>w. w \<notin> fst ` set d) (filter (\<lambda>y. y \<notin> set ?L) (first_seen ?E)) =
      filter (\<lambda>w. w \<notin> fst ` set d \<union> set ?L) (first_seen ?E)"
    by (auto intro: filter_cong)
  then show ?case
    by (simp add: Cons.IH k s first_seen_append)
qed

lemma emitted_order:
  "map fst (emitted set_iter lemmatize req wim) =
   first_seen (concat (map (\<lambda>s. set_iter (word ` set (WordInfoMeta.word_list wim) \<inter>
                                   set (lemmatize (language req) (text s))))
                        (segments req)))"
  by (simp add: emitted_def keys_fold_segment_step_order)

lemma keys_split:
  assumes "map fst W = A @ B"
  shows "\<exists>Wa Wb. W = Wa @ Wb \<and> map fst Wa = A"
proof (intro exI conjI)
  show "W = take (length A) W @ drop (length A) W" by simp
  have "map fst (take (length A) W) = take (length A) (map fst W)"
    by (simp add: take_map)
  then show "map fst (take (length A) W) = A"
    by (simp add: assms)
qed

lemma blocks_precede:
  assumes keys: "map fst W = Ys @ Zs" and dist: "distinct (map fst W)"
    and v: "v \<notin> set Ys" and u: "u \<in> fst ` set W \<Longrightarrow> u \<in> set Ys"
    and i: "i < length (concat (map (records_for es ids) W))"
      "word (concat (map (records_for es ids) W) ! i) = u"
    and j: "j < length (concat (map (records_for es ids) W))"
      "word (concat (map (records_for es ids) W) ! j) = v"
  shows "i < j"
proof -
  let ?rf = "records_for es ids"
  from keys_split[OF keys] obtain Wa Wb where W: "W = Wa @ Wb" and Wa: "map fst Wa = Ys"
    by (elim exE conjE)
  let ?A = "concat (map ?rf Wa)" and ?B = "concat (map ?rf Wb)"
  have out: "concat (map ?rf W) = ?A @ ?B" by (simp add: W)
  have "set (map fst Wa) = set Ys" using Wa by (rule arg_cong)
  then have sa: "fst ` set Wa = set Ys" by simp
  have disj: "fst ` set Wa \<inter> fst ` set Wb = {}"
    using dist by (simp add: W)
  have "\<not> j < length ?A"
  proof
    assume a: "j < length ?A"
    have "(?A @ ?B) ! j = ?A ! j" using a by (simp only: nth_append if_True)
    with nth_mem[OF a] have "(?A @ ?B) ! j \<in> set ?A" by (simp only:)
    from words_of_blocks[OF this] j(2) v show False by (simp only: out sa)
  qed
  moreover have "i < length ?A"
  proof (rule ccontr)
    assume n: "\<not> i < length ?A"
    then have e: "(?A @ ?B) ! i = ?B ! (i - length ?A)" by (simp only: nth_append if_False)
    have "i - length ?A < length ?B" using n i(1) unfolding out length_append by arith
    from nth_mem[OF this] e have "(?A @ ?B) ! i \<in> set ?B" by (simp only:)
    from words_of_blocks[OF this] i(2) have ub: "u \<in> fst ` set Wb" by (simp only: out)
    then have "u \<in> fst ` set W" by (auto simp: W)
    from u[OF this] have "u \<in> fst ` set Wa" by (simp only: sa)
    with ub disj show False by blast
  qed
  ultimately show ?thesis by arith
qed

lemma precede_by_prefix:
  assumes split: "concat (map (\<lambda>s. set_iter (word ` set (WordInfoMeta.word_list wim) \<inter>
                                   set (lemmatize (language req) (text s)))) (segments req)) = E1 @ E2"
    and v: "v \<notin> set E1"
    and u: "u \<in> fst ` set (emitted set_iter lemmatize req wim) \<Longrightarrow> u \<in> set E1"
    and i: "i < length (concat (map (records_for es ids) (emitted set_iter lemmatize req wim)))"
      "word (concat (map (records_for es ids) (emitted set_iter lemmatize req wim)) ! i) = u"
    and j: "j < length (concat (map (records_for es ids) (emitted set_iter lemmatize req wim)))"
      "word (concat (map (records_for es ids) (emitted set_iter lemmatize req wim)) ! j) = v"
  shows "i < j"
proof -
  have keys: "map fst (emitted set_iter lemmatize req wim) =
      first_seen E1 @ filter (\<lambda>y. y \<notin> set E1) (first_seen E2)"
    by (simp only: emitted_order split first_seen_append)
  have v': "v \<notin> set (first_seen E1)" using v by (simp add: set_first_seen)
  have u': "u \<in> fst ` set (emitted set_iter lemmatize req wim) \<Longrightarrow> u \<in> set (first_seen E1)"
    using u by (simp add: set_first_seen)
  show ?thesis
    by (rule blocks_precede[OF keys emitted_distinct v' u' i j])
qed

lemma intersect_iter:
  assumes "set_iteration set_iter"
  shows "set (set_iter (U \<inter> set xs)) = U \<inter> set xs" and "distinct (set_iter (U \<inter> set xs))"
  using assms by (simp_all add: set_iteration_def)

lemma cross_segment_precede:
  assumes it: "set_iteration set_iter"
    and k: "k < length (segments req)"
    and u: "u \<in> set (lemmatize (language req) (text (segments req ! k)))"
    and v: "\<forall>k'\<le>k. v \<notin> set (lemmatize (language req) (text (segments req ! k')))"
    and i: "i < length (concat (map (records_for es ids) (emitted set_iter lemmatize req wim)))"
      "word (concat (map (records_for es ids) (emitted set_iter lemmatize req wim)) ! i) = u"
    and j: "j < length (concat (map (records_for es ids) (emitted set_iter lemmatize req wim)))"
      "word (concat (map (records_for es ids) (emitted set_iter lemmatize req wim)) ! j) = v"
  shows "i < j"
proof -
  let ?U = "word ` set (WordInfoMeta.word_list wim)"
  let ?L = "\<lambda>s. set_iter (?U \<inter> set (lemmatize (language req) (text s)))"
  let ?E1 = "concat (map ?L (take (Suc k) (segments req)))"
  let ?E2 = "concat (map ?L (drop (Suc k) (segments req)))"
  have "concat (map ?L (take (Suc k) (segments req) @ drop (Suc k) (segments req))) = ?E1 @ ?E2"
    by (simp only: map_append concat_append)
  then have split: "concat (map ?L (segments req)) = ?E1 @ ?E2"
    by (simp only: append_take_drop_id)
  have v': "v \<notin> set ?E1"
  proof
    assume "v \<in> set ?E1"
    then obtain s where s: "s \<in> set (take (Suc k) (segments req))" and "v \<in> set (?L s)"
      by auto
    then have vs: "v \<in> set (lemmatize (language req) (text s))"
      using intersect_iter(1)[OF it] by blast
    from s obtain k' where "k' < Suc k" "k' < length (segments req)" "s = segments req ! k'"
      by (auto simp: in_set_conv_nth)
    with vs v show False by auto
  qed
  have u': "u \<in> set ?E1" if "u \<in> fst ` set (emitted set_iter lemmatize req wim)"
  proof -
    from that have "u \<in> ?U" unfolding emitted_keys[OF it] by blast
    with u have "u \<in> set (?L (segments req ! k))"
      using intersect_iter(1)[OF it] by blast
    moreover have "segments req ! k \<in> set (take (Suc k) (segments req))"
      using k by (auto simp: in_set_conv_nth intro!: exI[of _ k])
    ultimately show ?thesis by auto
  qed
  show ?thesis
    by (rule precede_by_prefix[OF split v' u' i j])
qed

lemma same_segment_precede:
  assumes it: "set_iteration set_iter"
    and k: "k < length (segments req)"
    and v: "\<forall>k'<k. v \<notin> set (lemmatize (language req) (text (segments req ! k')))"
    and ab: "a < b"
      "b < length (set_iter (word ` set (WordInfoMeta.word_list wim) \<inter>
                     set (lemmatize (language req) (text (segments req ! k)))))"
    and ua: "set_iter (word ` set (WordInfoMeta.word_list wim) \<inter>
                     set (lemmatize (language req) (text (segments req ! k)))) ! a = u"
    and vb: "set_iter (word ` set (WordInfoMeta.word_list wim) \<inter>
                     set (lemmatize (language req) (text (segments req ! k)))) ! b = v"
    and i: "i < length (concat (map (records_for es ids) (emitted set_iter lemmatize req wim)))"
      "word (concat (map (records_for es ids) (emitted set_iter lemmatize req wim)) ! i) = u"
    and j: "j < length (concat (map (records_for es ids) (emitted set_iter lemmatize req wim)))"
      "word (concat (map (records_for es ids) (emitted set_iter lemmatize req wim)) ! j) = v"
  shows "i < j"
proof -
  let ?U = "word ` set (WordInfoMeta.word_list wim)"
  let ?L = "\<lambda>s. set_iter (?U \<inter> set (lemmatize (language req) (text s)))"
  let ?Lk = "?L (segments req ! k)"
  let ?P = "concat (map ?L (take k (segments req)))"
  let ?E1 = "?P @ take (Suc a) ?Lk"
  let ?E2 = "drop (Suc a) ?Lk @ concat (map ?L (drop (Suc k) (segments req)))"
  have "segments req = take k (segments req) @ segments req ! k # drop (Suc k) (segments req)"
    using k by (rule id_take_nth_drop)
  then have "concat (map ?L (segments req)) =
      concat (map ?L (take k (segments req) @ segments req ! k # drop (Suc k) (segments req)))"
    by (rule arg_cong)
  also have "\<dots> = ?P @ ?Lk @ concat (map ?L (drop (Suc k) (segments req)))"
    by (simp only: map_append concat_append list.map concat.simps)
  also have "\<dots> = ?P @ (take (Suc a) ?Lk @ drop (Suc a) ?Lk) @
      concat (map ?L (drop (Suc k) (segments req)))"
    by (simp only: append_take_drop_id)
  also have "\<dots> = ?E1 @ ?E2" by (simp only: append_assoc)
  finally have split: "concat (map ?L (segments req)) = ?E1 @ ?E2" .
  have dist: "distinct ?Lk" by (rule intersect_iter(2)[OF it])
  have vP: "v \<notin> set ?P"
  proof
    assume "v \<in> set ?P"
    then obtain s where s: "s \<in> set (take k (segments req))" and "v \<in> set (?L s)"
      by auto
    then have vs: "v \<in> set (lemmatize (language req) (text s))"
      using intersect_iter(1)[OF it] by blast
    from s obtain k' where "k' < k" "k' < length (segments req)" "s = segments req ! k'"
      by (auto simp: in_set_conv_nth)
    with vs v show False by auto
  qed
  have vT: "v \<notin> set (take (Suc a) ?Lk)"
  proof
    assume "v \<in> set (take (Suc a) ?Lk)"
    then obtain c where c: "c < Suc a" "c < length ?Lk" "take (Suc a) ?Lk ! c = v"
      by (auto simp: in_set_conv_nth)
    then have "?Lk ! c = ?Lk ! b" using vb by simp
    with dist c(2) ab(2) have "c = b" by (simp add: nth_eq_iff_index_eq)
    with c(1) ab(1) show False by simp
  qed
  have v': "v \<notin> set ?E1" using vP vT by (simp only: set_append Un_iff) blast
  have "a < length ?Lk" using ab by simp
  then have "take (Suc a) ?Lk ! a \<in> set (take (Suc a) ?Lk)"
    by (intro nth_mem) simp
  then have "u \<in> set (take (Suc a) ?Lk)" using ua by simp
  then have u': "u \<in> set ?E1" by (simp only: set_append Un_iff) blast
  show ?thesis
    by (rule precede_by_prefix[OF split v' u' i j])
qed

text \<open>
  Claim C9 (entry order within a word), as amended. For every word, the records emitted
  for it are, in this order, the entries of the word list with that word (all of them when
  the word occurs in some segment, none otherwise). The output is the sequence of these
  blocks, one for each word, in the order in which the loop over the segments meets the
  words for the first time: segment after segment, and within a segment in the iteration
  order of the set \<open>intersect\<close>.
\<close>

theorem entry_order_preserved:
  assumes "set_iteration set_iter"
    and "read_word_list (url (SegmentWordListUrl.word_list req)) = Inr wim"
  shows "\<exists>out. process_text set_iter read_word_list lemmatize req = Inr out \<and>
     (\<forall>w. map WordInfo.truncate (filter (\<lambda>r. word r = w) (WordInfoFrequencyMeta.word_list out)) =
          (if \<exists>s\<in>set (segments req). w \<in> set (lemmatize (language req) (text s))
           then filter (\<lambda>e. word e = w) (WordInfoMeta.word_list wim) else [])) \<and>
     map WordInfo.truncate (WordInfoFrequencyMeta.word_list out) =
       concat (map (\<lambda>w. filter (\<lambda>e. word e = w) (WordInfoMeta.word_list wim))
                 (first_seen (concat (map (\<lambda>s. set_iter (word ` set (WordInfoMeta.word_list wim) \<inter>
                                                    set (lemmatize (language req) (text s))))
                                        (segments req)))))"
proof -
  let ?es = "WordInfoMeta.word_list wim"
  let ?ids = "map segment_id (segments req)"
  let ?W = "emitted set_iter lemmatize req wim"
  let ?out = "concat (map (records_for ?es ?ids) ?W)"
  note run = process_text_eq[of set_iter read_word_list req wim lemmatize, OF assms]
  note dist = emitted_distinct[of set_iter lemmatize req wim]
  have a: "map WordInfo.truncate (filter (\<lambda>r. word r = w) ?out) =
          (if \<exists>s\<in>set (segments req). w \<in> set (lemmatize (language req) (text s))
           then filter (\<lambda>e. word e = w) ?es else [])" for w
  proof (cases "map_of ?W w")
    case None
    then have "w \<notin> fst ` set ?W" by (simp add: map_of_eq_None_iff)
    then have "w \<notin> word ` set ?es \<or>
        \<not> (\<exists>s\<in>set (segments req). w \<in> set (lemmatize (language req) (text s)))"
      unfolding emitted_keys[OF assms(1)] by blast
    moreover have "w \<notin> word ` set ?es \<Longrightarrow> filter (\<lambda>e. word e = w) ?es = []"
      by (auto simp: filter_empty_conv)
    ultimately show ?thesis
      using None by (auto simp: filter_blocks[OF dist])
  next
    case (Some f)
    then have "w \<in> fst ` set ?W" by (auto dest: map_of_SomeD intro: rev_image_eqI)
    then have "\<exists>s\<in>set (segments req). w \<in> set (lemmatize (language req) (text s))"
      unfolding emitted_keys[OF assms(1)] by blast
    with Some show ?thesis
      by (simp add: filter_blocks[OF dist] truncate_records_for)
  qed
  have b: "map WordInfo.truncate ?out =
       concat (map (\<lambda>w. filter (\<lambda>e. word e = w) ?es)
                 (first_seen (concat (map (\<lambda>s. set_iter (word ` set ?es \<inter>
                                                    set (lemmatize (language req) (text s))))
                                        (segments req)))))"
    by (simp only: truncate_blocks emitted_order)
  from a b show ?thesis
    unfolding run by simp
qed

text \<open>
  Claim C5 (order law), as amended. If \<open>u\<close> occurs among the lemmas of segment \<open>k\<close> and
  \<open>v\<close> occurs in no segment up to and including \<open>k\<close>, then every record for \<open>u\<close> stands
  before every record for \<open>v\<close> in the output. If \<open>v\<close> occurs in no segment before \<open>k\<close>
  and \<open>u\<close> stands before \<open>v\<close> in the order in which the set \<open>intersect\<close> of segment \<open>k\<close>
  is iterated, then again every record for \<open>u\<close> stands before every record for \<open>v\<close>: words
  first seen in the same segment come out in the iteration order of that set.
\<close>

theorem first_seen_order:
  assumes "set_iteration set_iter"
    and "read_word_list (url (SegmentWordListUrl.word_list req)) = Inr wim"
  shows "\<exists>out. process_text set_iter read_word_list lemmatize req = Inr out \<and>
     (\<forall>k u v i j.
        k < length (segments req) \<and>
        u \<in> set (lemmatize (language req) (text (segments req ! k))) \<and>
        (\<forall>k'\<le>k. v \<notin> set (lemmatize (language req) (text (segments req ! k')))) \<and>
        i < length (WordInfoFrequencyMeta.word_list out) \<and>
        j < length (WordInfoFrequencyMeta.word_list out) \<and>
        word (WordInfoFrequencyMeta.word_list out ! i) = u \<and>
        word (WordInfoFrequencyMeta.word_list out ! j) = v \<longrightarrow> i < j) \<and>
     (\<forall>k a b u v i j.
        k < length (segments req) \<and>
        (\<forall>k'<k. v \<notin> set (lemmatize (language req) (text (segments req ! k')))) \<and>
        a < b \<and>
        b < length (set_iter (word ` set (WordInfoMeta.word_list wim) \<inter>
                      set (lemmatize (language req) (text (segments req ! k))))) \<and>
        set_iter (word ` set (WordInfoMeta.word_list wim) \<inter>
                      set (lemmatize (language req) (text (segments req ! k)))) ! a = u \<and>
        set_iter (word ` set (WordInfoMeta.word_list wim) \<inter>
                      set (lemmatize (language req) (text (segments req ! k)))) ! b = v \<and>
        i < length (WordInfoFrequencyMeta.word_list out) \<and>
        j < length (WordInfoFrequencyMeta.word_list out) \<and>
        word (WordInfoFrequencyMeta.word_list out ! i) = u \<and>
        word (WordInfoFrequencyMeta.word_list out ! j) = v \<longrightarrow> i < j)"
proof -
  let ?es = "WordInfoMeta.word_list wim"
  let ?ids = "map segment_id (segments req)"
  let ?W = "emitted set_iter lemmatize req wim"
  let ?res = "\<lparr>WordInfoFrequencyMeta.metadata = WordInfoMeta.metadata wim,
               WordInfoFrequencyMeta.word_list = concat (map (records_for ?es ?ids) ?W)\<rparr>"
  note run = process_text_eq[of set_iter read_word_list req wim lemmatize, OF assms]
  have wl: "WordInfoFrequencyMeta.word_list ?res = concat (map (records_for ?es ?ids) ?W)"
    by simp
  show ?thesis
  proof (rule exI[of _ ?res], intro conjI allI impI)
    show "process_text set_iter read_word_list lemmatize req = Inr ?res" by (rule run)
  next
    fix k u v i j
    assume "k < length (segments req) \<and>
        u \<in> set (lemmatize (language req) (text (segments req ! k))) \<and>
        (\<forall>k'\<le>k. v \<notin> set (lemmatize (language req) (text (segments req ! k')))) \<and>
        i < length (WordInfoFrequencyMeta.word_list ?res) \<and>
        j < length (WordInfoFrequencyMeta.word_list ?res) \<and>
        word (WordInfoFrequencyMeta.word_list ?res ! i) = u \<and>
        word (WordInfoFrequencyMeta.word_list ?res ! j) = v"
    then show "i < j"
      unfolding wl
      by (elim conjE) (rule cross_segment_precede[OF assms(1), of k req u lemmatize v i ?es ?ids wim j];
          assumption)
  next
    fix k a b u v i j
    assume "k < length (segments req) \<and>
        (\<forall>k'<k. v \<notin> set (lemmatize (language req) (text (segments req ! k')))) \<and>
        a < b \<and>
        b < length (set_iter (word ` set ?es \<inter>
                      set (lemmatize (language req) (text (segments req ! k))))) \<and>
        set_iter (word ` set ?es \<inter>
                      set (lemmatize (language req) (text (segments req ! k)))) ! a = u \<and>
        set_iter (word ` set ?es \<inter>
                      set (lemmatize (language req) (text (segments req ! k)))) ! b = v \<and>
        i < length (WordInfoFrequencyMeta.word_list ?res) \<and>
        j < length (WordInfoFrequencyMeta.word_list ?res) \<and>
        word (WordInfoFrequencyMeta.word_list ?res ! i) = u \<and>
        word (WordInfoFrequencyMeta.word_list ?res ! j) = v"
    then show "i < j"
      unfolding wl
      by (elim conjE) (rule same_segment_precede[OF assms(1), of k req v lemmatize a b wim u i ?es ?ids j];
          assumption)
  qed
qed

lemma mset_blocks: "mset (concat (map g W)) = (\<Sum>p\<in>#mset W. mset (g p))"
  by (induction W) simp_all

lemma emitted_same_set:
  assumes "set_iteration set_iter1" and "set_iteration set_iter2"
  shows "set (emitted set_iter1 lemmatize req wim) = set (emitted set_iter2 lemmatize req wim)"
proof (rule set_eqI)
  fix p :: "string \<times> (string, int) dict"
  obtain w f where p: "p = (w, f)" by (cases p)
  show "p \<in> set (emitted set_iter1 lemmatize req wim) \<longleftrightarrow>
        p \<in> set (emitted set_iter2 lemmatize req wim)"
    unfolding p emitted_entry[OF assms(1)] emitted_entry[OF assms(2)] ..
qed

lemma emitted_same_lookup:
  assumes "set_iteration set_iter1" and "set_iteration set_iter2"
  shows "map_of (emitted set_iter1 lemmatize req wim) w =
         map_of (emitted set_iter2 lemmatize req wim) w"
  unfolding emitted_def map_of_fold_segment_step[OF assms(1)] map_of_fold_segment_step[OF assms(2)] ..

lemma emitted_same_iteration:
  assumes "\<forall>s\<in>set (segments req).
      set_iter1 (word ` set (WordInfoMeta.word_list wim) \<inter> set (lemmatize (language req) (text s))) =
      set_iter2 (word ` set (WordInfoMeta.word_list wim) \<inter> set (lemmatize (language req) (text s)))"
  shows "emitted set_iter1 lemmatize req wim = emitted set_iter2 lemmatize req wim"
  unfolding emitted_def
proof (rule fold_cong)
  fix s
  assume "s \<in> set (segments req)"
  with assms show "segment_step set_iter1 (word ` set (WordInfoMeta.word_list wim))
        (\<lambda>s. lemmatize (language req) (text s)) s =
      segment_step set_iter2 (word ` set (WordInfoMeta.word_list wim))
        (\<lambda>s. lemmatize (language req) (text s)) s"
    by (simp add: segment_step_def fun_eq_iff)
qed simp_all

text \<open>
  Claim C6 (determinism), as amended. Two runs on the same request, word list and lemma
  lists, each with its own iteration order for the sets, both return. Their outputs have
  the same metadata, the same records with the same multiplicities and, for every word,
  the same list of records; in both, every record for a word seen in some segment stands
  before every record for a word that occurs in no segment up to that one; and the
  outputs are equal when the two runs iterate the set \<open>intersect\<close> of every segment in the
  same order. What may differ between the runs is the order of words first seen in the
  same segment.
\<close>

theorem determinism_up_to_set_order:
  assumes "set_iteration set_iter1" and "set_iteration set_iter2"
    and "read_word_list (url (SegmentWordListUrl.word_list req)) = Inr wim"
  shows "\<exists>out1 out2.
     process_text set_iter1 read_word_list lemmatize req = Inr out1 \<and>
     process_text set_iter2 read_word_list lemmatize req = Inr out2 \<and>
     WordInfoFrequencyMeta.metadata out1 = WordInfoFrequencyMeta.metadata out2 \<and>
     mset (WordInfoFrequencyMeta.word_list out1) = mset (WordInfoFrequencyMeta.word_list out2) \<and>
     (\<forall>w. filter (\<lambda>r. word r = w) (WordInfoFrequencyMeta.word_list out1) =
          filter (\<lambda>r. word r = w) (WordInfoFrequencyMeta.word_list out2)) \<and>
     (\<forall>k u v i j.
        k < length (segments req) \<and>
        u \<in> set (lemmatize (language req) (text (segments req ! k))) \<and>
        (\<forall>k'\<le>k. v \<notin> set (lemmatize (language req) (text (segments req ! k')))) \<and>
        i < length (WordInfoFrequencyMeta.word_list out1) \<and>
        j < length (WordInfoFrequencyMeta.word_list out1) \<and>
        word (WordInfoFrequencyMeta.word_list out1 ! i) = u \<and>
        word (WordInfoFrequencyMeta.word_list out1 ! j) = v \<longrightarrow> i < j) \<and>
     (\<forall>k u v i j.
        k < length (segments req) \<and>
        u \<in> set (lemmatize (language req) (text (segments req ! k))) \<and>
        (\<forall>k'\<le>k. v \<notin> set (lemmatize (language req) (text (segments req ! k')))) \<and>
        i < length (WordInfoFrequencyMeta.word_list out2) \<and>
        j < length (WordInfoFrequencyMeta.word_list out2) \<and>
        word (WordInfoFrequencyMeta.word_list out2 ! i) = u \<and>
        word (WordInfoFrequencyMeta.word_list out2 ! j) = v \<longrightarrow> i < j) \<and>
     ((\<forall>s\<in>set (segments req).
         set_iter1 (word ` set (WordInfoMeta.word_list wim) \<inter>
                     set (lemmatize (language req) (text s))) =
         set_iter2 (word ` set (WordInfoMeta.word_list wim) \<inter>
                     set (lemmatize (language req) (text s)))) \<longrightarrow> out1 = out2)"
proof -
  let ?es = "WordInfoMeta.word_list wim"
  let ?ids = "map segment_id (segments req)"
  let ?W1 = "emitted set_iter1 lemmatize req wim"
  let ?W2 = "emitted set_iter2 lemmatize req wim"
  let ?rf = "records_for ?es ?ids"
  let ?o1 = "\<lparr>WordInfoFrequencyMeta.metadata = WordInfoMeta.metadata wim,
              WordInfoFrequencyMeta.word_list = concat (map ?rf ?W1)\<rparr>"
  let ?o2 = "\<lparr>WordInfoFrequencyMeta.metadata = WordInfoMeta.metadata wim,
              WordInfoFrequencyMeta.word_list = concat (map ?rf ?W2)\<rparr>"
  note run1 = process_text_eq[of set_iter1 read_word_list req wim lemmatize, OF assms(1,3)]
  note run2 = process_text_eq[of set_iter2 read_word_list req wim lemmatize, OF assms(2,3)]
  note d1 = emitted_distinct[of set_iter1 lemmatize req wim]
  note d2 = emitted_distinct[of set_iter2 lemmatize req wim]
  have wl1: "WordInfoFrequencyMeta.word_list ?o1 = concat (map ?rf ?W1)" by simp
  have wl2: "WordInfoFrequencyMeta.word_list ?o2 = concat (map ?rf ?W2)" by simp
  have "distinct ?W1" "distinct ?W2"
    using d1 d2 by (simp_all add: distinct_map)
  then have "mset ?W1 = mset ?W2"
    using emitted_same_set[OF assms(1,2), of lemmatize req wim]
    by (simp add: set_eq_iff_mset_eq_distinct)
  then have m: "mset (concat (map ?rf ?W1)) = mset (concat (map ?rf ?W2))"
    by (simp only: mset_blocks)
  have f: "filter (\<lambda>r. word r = w) (concat (map ?rf ?W1)) =
      filter (\<lambda>r. word r = w) (concat (map ?rf ?W2))" for w
    by (simp only: filter_blocks[OF d1] filter_blocks[OF d2]
        emitted_same_lookup[OF assms(1,2), of lemmatize req wim w])
  show ?thesis
  proof (rule exI[of _ ?o1], rule exI[of _ ?o2], intro conjI allI impI)
    show "process_text set_iter1 read_word_list lemmatize req = Inr ?o1" by (rule run1)
    show "process_text set_iter2 read_word_list lemmatize req = Inr ?o2" by (rule run2)
    show "WordInfoFrequencyMeta.metadata ?o1 = WordInfoFrequencyMeta.metadata ?o2" by simp
    show "mset (WordInfoFrequencyMeta.word_list ?o1) = mset (WordInfoFrequencyMeta.word_list ?o2)"
      using m by simp
    show "filter (\<lambda>r. word r = w) (WordInfoFrequencyMeta.word_list ?o1) =
          filter (\<lambda>r. word r = w) (WordInfoFrequencyMeta.word_list ?o2)" for w
      using f[of w] by simp
  next
    fix k u v i j
    assume "k < length (segments req) \<and>
        u \<in> set (lemmatize (language req) (text (segments req ! k))) \<and>
        (\<forall>k'\<le>k. v \<notin> set (lemmatize (language req) (text (segments req ! k')))) \<and>
        i < length (WordInfoFrequencyMeta.word_list ?o1) \<and>
        j < length (WordInfoFrequencyMeta.word_list ?o1) \<and>
        word (WordInfoFrequencyMeta.word_list ?o1 ! i) = u \<and>
        word (WordInfoFrequencyMeta.word_list ?o1 ! j) = v"
    then show "i < j"
      unfolding wl1
      by (elim conjE) (rule cross_segment_precede[OF assms(1), of k req u lemmatize v i ?es ?ids wim j];
          assumption)
  next
    fix k u v i j
    assume "k < length (segments req) \<and>
        u \<in> set (lemmatize (language req) (text (segments req ! k))) \<and>
        (\<forall>k'\<le>k. v \<notin> set (lemmatize (language req) (text (segments req ! k')))) \<and>
        i < length (WordInfoFrequencyMeta.word_list ?o2) \<and>
        j < length (WordInfoFrequencyMeta.word_list ?o2) \<and>
        word (WordInfoFrequencyMeta.word_list ?o2 ! i) = u \<and>
        word (WordInfoFrequencyMeta.word_list ?o2 ! j) = v"
    then show "i < j"
      unfolding wl2
      by (elim conjE) (rule cross_segment_precede[OF assms(2), of k req u lemmatize v i ?es ?ids wim j];
          assumption)
  next
    assume "\<forall>s\<in>set (segments req).
         set_iter1 (word ` set ?es \<inter> set (lemmatize (language req) (text s))) =
         set_iter2 (word ` set ?es \<inter> set (lemmatize (language req) (text s)))"
    then have "?W1 = ?W2" by (rule emitted_same_iteration)
    then show "?o1 = ?o2" by simp
  qed
qed

lemma order_read_ok:
  "example_read (url (SegmentWordListUrl.word_list order_request)) = Inr example_word_list"
  by (simp add: example_read_def)

lemma order_result:
  "\<exists>out. process_text sorted_list_of_set example_read example_lemmatize order_request = Inr out \<and> P out
   \<Longrightarrow> P order_output"
  by (simp add: order_run)

lemma example_encounters:
  "first_seen (concat (map (\<lambda>s. sorted_list_of_set
       (word ` set (WordInfoMeta.word_list example_word_list) \<inter>
        set (example_lemmatize (language example_request) (text s))))
     (segments example_request))) = [''oak'', ''birch'']"
  by code_simp

lemma order_intersect:
  "sorted_list_of_set (word ` set (WordInfoMeta.word_list example_word_list) \<inter>
      set (example_lemmatize (language order_request) (text (segments order_request ! 0)))) =
   [''oak'', ''pine'']"
  by code_simp

lemma order_tokens:
  "first_seen (filter (\<lambda>t. t \<in> word ` set (WordInfoMeta.word_list example_word_list))
     (concat (map (\<lambda>s. example_lemmatize (language order_request) (text s))
                (segments order_request)))) = [''pine'', ''oak'']"
  by code_simp

lemma order_words:
  "map word (WordInfoFrequencyMeta.word_list order_output) = [''oak'', ''oak'', ''pine'']"
  by (simp add: order_output_def)

theorem entry_order_preserved_witness:
  "set_iteration sorted_list_of_set \<and>
   example_read (url (SegmentWordListUrl.word_list example_request)) = Inr example_word_list \<and>
   process_text sorted_list_of_set example_read example_lemmatize example_request = Inr example_output \<and>
   (\<exists>s\<in>set (segments example_request).
      ''oak'' \<in> set (example_lemmatize (language example_request) (text s))) \<and>
   map WordInfo.truncate
     (filter (\<lambda>r. word r = ''oak'') (WordInfoFrequencyMeta.word_list example_output)) =
     filter (\<lambda>e. word e = ''oak'') (WordInfoMeta.word_list example_word_list) \<and>
   map wikidata_ids
     (filter (\<lambda>r. word r = ''oak'') (WordInfoFrequencyMeta.word_list example_output)) =
     [[''Q12004''], [''Q33036816'']] \<and>
   map WordInfo.truncate (WordInfoFrequencyMeta.word_list example_output) =
     concat (map (\<lambda>w. filter (\<lambda>e. word e = w) (WordInfoMeta.word_list example_word_list))
               [''oak'', ''birch''])"
proof -
  note body = example_result[OF entry_order_preserved[of sorted_list_of_set example_read
        example_request example_word_list example_lemmatize,
        OF set_iteration_sorted example_read_ok]]
  have m: "\<exists>s\<in>set (segments example_request).
      ''oak'' \<in> set (example_lemmatize (language example_request) (text s))"
    by (simp add: example_request_def example_lemmatize_def)
  from body have "map WordInfo.truncate
     (filter (\<lambda>r. word r = ''oak'') (WordInfoFrequencyMeta.word_list example_output)) =
     (if \<exists>s\<in>set (segments example_request).
           ''oak'' \<in> set (example_lemmatize (language example_request) (text s))
      then filter (\<lambda>e. word e = ''oak'') (WordInfoMeta.word_list example_word_list) else [])"
    by (elim conjE) (erule spec)
  with m have a: "map WordInfo.truncate
     (filter (\<lambda>r. word r = ''oak'') (WordInfoFrequencyMeta.word_list example_output)) =
     filter (\<lambda>e. word e = ''oak'') (WordInfoMeta.word_list example_word_list)"
    by (simp only: if_True)
  have c: "map wikidata_ids
     (filter (\<lambda>r. word r = ''oak'') (WordInfoFrequencyMeta.word_list example_output)) =
     [[''Q12004''], [''Q33036816'']]"
    by (simp add: example_output_def)
  from body have b: "map WordInfo.truncate (WordInfoFrequencyMeta.word_list example_output) =
     concat (map (\<lambda>w. filter (\<lambda>e. word e = w) (WordInfoMeta.word_list example_word_list))
               [''oak'', ''birch''])"
    unfolding example_encounters by (elim conjE)
  from set_iteration_sorted example_read_ok example_run m a c b show ?thesis
    by (intro conjI)
qed

text \<open>
  The claim as it stands has the blocks in the order in which the words are first seen in
  the text. With the lemmas \<open>pine, and, oak\<close> in the only segment that order is \<open>pine\<close>,
  \<open>oak\<close>; with a set that yields \<open>oak\<close> before \<open>pine\<close> the two entries for \<open>oak\<close> are
  emitted before the entry for \<open>pine\<close>.
\<close>

theorem entry_order_counterexample:
  "set_iteration sorted_list_of_set \<and>
   example_read (url (SegmentWordListUrl.word_list order_request)) = Inr example_word_list \<and>
   process_text sorted_list_of_set example_read example_lemmatize order_request = Inr order_output \<and>
   first_seen (filter (\<lambda>t. t \<in> word ` set (WordInfoMeta.word_list example_word_list))
     (concat (map (\<lambda>s. example_lemmatize (language order_request) (text s))
                (segments order_request)))) = [''pine'', ''oak''] \<and>
   map wikidata_ids (WordInfoFrequencyMeta.word_list order_output) =
     [[''Q12004''], [''Q33036816''], [''Q12024'']] \<and>
   map WordInfo.truncate (WordInfoFrequencyMeta.word_list order_output) \<noteq>
     concat (map (\<lambda>w. filter (\<lambda>e. word e = w) (WordInfoMeta.word_list example_word_list))
               [''pine'', ''oak''])"
proof -
  have a: "map wikidata_ids (WordInfoFrequencyMeta.word_list order_output) =
     [[''Q12004''], [''Q33036816''], [''Q12024'']]"
    by (simp add: order_output_def)
  have b: "map WordInfo.truncate (WordInfoFrequencyMeta.word_list order_output) \<noteq>
     concat (map (\<lambda>w. filter (\<lambda>e. word e = w) (WordInfoMeta.word_list example_word_list))
               [''pine'', ''oak''])"
    by (simp add: order_output_def example_word_list_def WordInfo.truncate_def)
  from set_iteration_sorted order_read_ok order_run order_tokens a b show ?thesis
    by (intro conjI)
qed

theorem first_seen_order_witness:
  "set_iteration sorted_list_of_set \<and>
   example_read (url (SegmentWordListUrl.word_list example_request)) = Inr example_word_list \<and>
   0 < length (segments example_request) \<and>
   ''oak'' \<in> set (example_lemmatize (language example_request) (text (segments example_request ! 0))) \<and>
   ''birch'' \<notin> set (example_lemmatize (language example_request) (text (segments example_request ! 0))) \<and>
   process_text sorted_list_of_set example_read example_lemmatize example_request = Inr example_output \<and>
   1 < length (WordInfoFrequencyMeta.word_list example_output) \<and>
   2 < length (WordInfoFrequencyMeta.word_list example_output) \<and>
   word (WordInfoFrequencyMeta.word_list example_output ! 1) = ''oak'' \<and>
   word (WordInfoFrequencyMeta.word_list example_output ! 2) = ''birch'' \<and>
   (1::nat) < 2 \<and>
   example_read (url (SegmentWordListUrl.word_list order_request)) = Inr example_word_list \<and>
   0 < length (segments order_request) \<and>
   sorted_list_of_set (word ` set (WordInfoMeta.word_list example_word_list) \<inter>
      set (example_lemmatize (language order_request) (text (segments order_request ! 0)))) =
     [''oak'', ''pine''] \<and>
   process_text sorted_list_of_set example_read example_lemmatize order_request = Inr order_output \<and>
   word (WordInfoFrequencyMeta.word_list order_output ! 1) = ''oak'' \<and>
   word (WordInfoFrequencyMeta.word_list order_output ! 2) = ''pine'' \<and>
   (1::nat) < 2"
proof -
  have len: "0 < length (segments example_request)"
    by (simp add: example_request_def)
  have u: "''oak'' \<in> set (example_lemmatize (language example_request) (text (segments example_request ! 0)))"
    by (simp add: example_request_def example_lemmatize_def)
  have v0: "''birch'' \<notin> set (example_lemmatize (language example_request) (text (segments example_request ! 0)))"
    by (simp add: example_request_def example_lemmatize_def)
  then have v: "\<forall>k'\<le>0. ''birch'' \<notin>
      set (example_lemmatize (language example_request) (text (segments example_request ! k')))"
    by simp
  note body = example_result[OF first_seen_order[of sorted_list_of_set example_read
        example_request example_word_list example_lemmatize,
        OF set_iteration_sorted example_read_ok]]
  have facts: "1 < length (WordInfoFrequencyMeta.word_list example_output)"
      "2 < length (WordInfoFrequencyMeta.word_list example_output)"
      "word (WordInfoFrequencyMeta.word_list example_output ! 1) = ''oak''"
      "word (WordInfoFrequencyMeta.word_list example_output ! 2) = ''birch''"
    by (simp_all add: example_output_def)
  from body have "\<forall>k u v i j.
        k < length (segments example_request) \<and>
        u \<in> set (example_lemmatize (language example_request) (text (segments example_request ! k))) \<and>
        (\<forall>k'\<le>k. v \<notin> set (example_lemmatize (language example_request) (text (segments example_request ! k')))) \<and>
        i < length (WordInfoFrequencyMeta.word_list example_output) \<and>
        j < length (WordInfoFrequencyMeta.word_list example_output) \<and>
        word (WordInfoFrequencyMeta.word_list example_output ! i) = u \<and>
        word (WordInfoFrequencyMeta.word_list example_output ! j) = v \<longrightarrow> i < j"
    by (elim conjE)
  from this[THEN spec[of _ 0], THEN spec[of _ "''oak''"], THEN spec[of _ "''birch''"],
      THEN spec[of _ 1], THEN spec[of _ 2]] len u v facts
  have one: "(1::nat) < 2" by (elim impE) (intro conjI)
  have olen: "0 < length (segments order_request)"
    by (simp add: order_request_def)
  note obody = order_result[OF first_seen_order[of sorted_list_of_set example_read
        order_request example_word_list example_lemmatize,
        OF set_iteration_sorted order_read_ok]]
  have ofacts: "1 < length (WordInfoFrequencyMeta.word_list order_output)"
      "2 < length (WordInfoFrequencyMeta.word_list order_output)"
      "word (WordInfoFrequencyMeta.word_list order_output ! 1) = ''oak''"
      "word (WordInfoFrequencyMeta.word_list order_output ! 2) = ''pine''"
    by (simp_all add: order_output_def)
  have none: "\<forall>k'<0. ''pine'' \<notin>
      set (example_lemmatize (language order_request) (text (segments order_request ! k')))"
    by simp
  have pos: "(0::nat) < 1" "1 < length [''oak'', ''pine'']"
      "[''oak'', ''pine''] ! 0 = ''oak''" "[''oak'', ''pine''] ! 1 = ''pine''"
    by simp_all
  from obody have "\<forall>k a b u v i j.
        k < length (segments order_request) \<and>
        (\<forall>k'<k. v \<notin> set (example_lemmatize (language order_request) (text (segments order_request ! k')))) \<and>
        a < b \<and>
        b < length (sorted_list_of_set (word ` set (WordInfoMeta.word_list example_word_list) \<inter>
                      set (example_lemmatize (language order_request) (text (segments order_request ! k))))) \<and>
        sorted_list_of_set (word ` set (WordInfoMeta.word_list example_word_list) \<inter>
                      set (example_lemmatize (language order_request) (text (segments order_request ! k)))) ! a = u \<and>
        sorted_list_of_set (word ` set (WordInfoMeta.word_list example_word_list) \<inter>
                      set (example_lemmatize (language order_request) (text (segments order_request ! k)))) ! b = v \<and>
        i < length (WordInfoFrequencyMeta.word_list order_output) \<and>
        j < length (WordInfoFrequencyMeta.word_list order_output) \<and>
        word (WordInfoFrequencyMeta.word_list order_output ! i) = u \<and>
        word (WordInfoFrequencyMeta.word_list order_output ! j) = v \<longrightarrow> i < j"
    by (elim conjE)
  from this[THEN spec[of _ 0], THEN spec[of _ 0], THEN spec[of _ 1], THEN spec[of _ "''oak''"],
      THEN spec[of _ "''pine''"], THEN spec[of _ 1], THEN spec[of _ 2],
      unfolded order_intersect] olen none pos ofacts
  have two: "(1::nat) < 2" by (elim impE) (intro conjI)
  from set_iteration_sorted example_read_ok len u v0 example_run facts one
    order_read_ok olen order_intersect order_run ofacts(3,4) two
  show ?thesis by (intro conjI)
qed

text \<open>
  The claim as it stands extends the order law to words first seen in the same segment.
  There the output follows the iteration order of the set \<open>intersect\<close>, not the order of
  the tokens: with the lemmas \<open>pine, and, oak\<close> in the only segment, and a set that yields
  \<open>oak\<close> before \<open>pine\<close>, both records for \<open>oak\<close> stand before the record for \<open>pine\<close>,
  so the words of the output come in the order \<open>oak\<close>, \<open>pine\<close> while they are first seen
  in the order \<open>pine\<close>, \<open>oak\<close>.
\<close>

theorem first_seen_order_counterexample:
  "set_iteration sorted_list_of_set \<and>
   example_read (url (SegmentWordListUrl.word_list order_request)) = Inr example_word_list \<and>
   example_lemmatize (language order_request) (text (segments order_request ! 0)) =
     [''pine'', ''and'', ''oak''] \<and>
   process_text sorted_list_of_set example_read example_lemmatize order_request = Inr order_output \<and>
   map word (WordInfoFrequencyMeta.word_list order_output) = [''oak'', ''oak'', ''pine''] \<and>
   first_seen (map word (WordInfoFrequencyMeta.word_list order_output)) = [''oak'', ''pine''] \<and>
   first_seen (filter (\<lambda>t. t \<in> word ` set (WordInfoMeta.word_list example_word_list))
     (concat (map (\<lambda>s. example_lemmatize (language order_request) (text s))
                (segments order_request)))) = [''pine'', ''oak'']"
proof -
  have "example_lemmatize (language order_request) (text (segments order_request ! 0)) =
     [''pine'', ''and'', ''oak'']"
    by (simp add: order_request_def example_lemmatize_def)
  moreover have "first_seen (map word (WordInfoFrequencyMeta.word_list order_output)) =
      [''oak'', ''pine'']"
    by (simp add: order_words)
  ultimately show ?thesis
    using set_iteration_sorted order_read_ok order_run order_words order_tokens by (intro conjI)
qed

lemma example_run_rev:
  "process_text (\<lambda>S. rev (sorted_list_of_set S)) example_read example_lemmatize example_request =
   Inr example_output"
  by code_simp

lemma single_segment_same_iteration:
  "\<forall>s\<in>set (segments (example_request\<lparr>segments := take 1 (segments example_request)\<rparr>)).
     sorted_list_of_set (word ` set (WordInfoMeta.word_list example_word_list) \<inter>
        set (example_lemmatize
               (language (example_request\<lparr>segments := take 1 (segments example_request)\<rparr>)) (text s))) =
     rev (sorted_list_of_set (word ` set (WordInfoMeta.word_list example_word_list) \<inter>
        set (example_lemmatize
               (language (example_request\<lparr>segments := take 1 (segments example_request)\<rparr>)) (text s))))"
  by code_simp

lemma single_segment_intersect:
  "sorted_list_of_set (word ` set (WordInfoMeta.word_list example_word_list) \<inter>
      set (example_lemmatize (language example_request) (text (segments example_request ! 0)))) =
   [''oak'']"
  by code_simp

theorem determinism_up_to_set_order_witness:
  "set_iteration sorted_list_of_set \<and>
   set_iteration (\<lambda>S. rev (sorted_list_of_set S)) \<and>
   example_read (url (SegmentWordListUrl.word_list order_request)) = Inr example_word_list \<and>
   process_text sorted_list_of_set example_read example_lemmatize order_request = Inr order_output \<and>
   process_text (\<lambda>S. rev (sorted_list_of_set S)) example_read example_lemmatize order_request =
     Inr order_output_rev \<and>
   WordInfoFrequencyMeta.metadata order_output = WordInfoFrequencyMeta.metadata order_output_rev \<and>
   mset (WordInfoFrequencyMeta.word_list order_output) =
     mset (WordInfoFrequencyMeta.word_list order_output_rev) \<and>
   filter (\<lambda>r. word r = ''oak'') (WordInfoFrequencyMeta.word_list order_output) =
     filter (\<lambda>r. word r = ''oak'') (WordInfoFrequencyMeta.word_list order_output_rev) \<and>
   example_read (url (SegmentWordListUrl.word_list example_request)) = Inr example_word_list \<and>
   0 < length (segments example_request) \<and>
   ''oak'' \<in> set (example_lemmatize (language example_request) (text (segments example_request ! 0))) \<and>
   ''birch'' \<notin> set (example_lemmatize (language example_request) (text (segments example_request ! 0))) \<and>
   process_text sorted_list_of_set example_read example_lemmatize example_request = Inr example_output \<and>
   process_text (\<lambda>S. rev (sorted_list_of_set S)) example_read example_lemmatize example_request =
     Inr example_output \<and>
   word (WordInfoFrequencyMeta.word_list example_output ! 1) = ''oak'' \<and>
   word (WordInfoFrequencyMeta.word_list example_output ! 2) = ''birch'' \<and>
   (1::nat) < 2 \<and>
   sorted_list_of_set (word ` set (WordInfoMeta.word_list example_word_list) \<inter>
      set (example_lemmatize (language example_request) (text (segments example_request ! 0)))) =
     [''oak''] \<and>
   process_text sorted_list_of_set example_read example_lemmatize
       (example_request\<lparr>segments := take 1 (segments example_request)\<rparr>) =
     process_text (\<lambda>S. rev (sorted_list_of_set S)) example_read example_lemmatize
       (example_request\<lparr>segments := take 1 (segments example_request)\<rparr>)"
proof -
  from determinism_up_to_set_order[of sorted_list_of_set "\<lambda>S. rev (sorted_list_of_set S)"
      example_read order_request example_word_list example_lemmatize,
      OF set_iteration_sorted set_iteration_sorted_rev order_read_ok]
  obtain out1 out2 where
    r1: "process_text sorted_list_of_set example_read example_lemmatize order_request = Inr out1"
    and r2: "process_text (\<lambda>S. rev (sorted_list_of_set S)) example_read example_lemmatize
               order_request = Inr out2"
    and md: "WordInfoFrequencyMeta.metadata out1 = WordInfoFrequencyMeta.metadata out2"
    and ms: "mset (WordInfoFrequencyMeta.word_list out1) = mset (WordInfoFrequencyMeta.word_list out2)"
    and fl: "\<forall>w. filter (\<lambda>r. word r = w) (WordInfoFrequencyMeta.word_list out1) =
          filter (\<lambda>r. word r = w) (WordInfoFrequencyMeta.word_list out2)"
    by (elim exE conjE)
  from r1 order_run have o1: "out1 = order_output" by simp
  from r2 order_run_rev have o2: "out2 = order_output_rev" by simp
  note fo = fl[THEN spec, of "''oak''"]
  have A: "WordInfoFrequencyMeta.metadata order_output = WordInfoFrequencyMeta.metadata order_output_rev"
    "mset (WordInfoFrequencyMeta.word_list order_output) =
       mset (WordInfoFrequencyMeta.word_list order_output_rev)"
    "filter (\<lambda>r. word r = ''oak'') (WordInfoFrequencyMeta.word_list order_output) =
       filter (\<lambda>r. word r = ''oak'') (WordInfoFrequencyMeta.word_list order_output_rev)"
    using md ms fo unfolding o1 o2 by - assumption+
  have len: "0 < length (segments example_request)"
    by (simp add: example_request_def)
  have u: "''oak'' \<in> set (example_lemmatize (language example_request) (text (segments example_request ! 0)))"
    by (simp add: example_request_def example_lemmatize_def)
  have v0: "''birch'' \<notin> set (example_lemmatize (language example_request) (text (segments example_request ! 0)))"
    by (simp add: example_request_def example_lemmatize_def)
  then have v: "\<forall>k'\<le>0. ''birch'' \<notin>
      set (example_lemmatize (language example_request) (text (segments example_request ! k')))"
    by simp
  have facts: "1 < length (WordInfoFrequencyMeta.word_list example_output)"
      "2 < length (WordInfoFrequencyMeta.word_list example_output)"
      "word (WordInfoFrequencyMeta.word_list example_output ! 1) = ''oak''"
      "word (WordInfoFrequencyMeta.word_list example_output ! 2) = ''birch''"
    by (simp_all add: example_output_def)
  from determinism_up_to_set_order[of sorted_list_of_set "\<lambda>S. rev (sorted_list_of_set S)"
      example_read example_request example_word_list example_lemmatize,
      OF set_iteration_sorted set_iteration_sorted_rev example_read_ok]
  obtain p1 p2 where
    q1: "process_text sorted_list_of_set example_read example_lemmatize example_request = Inr p1"
    and q2: "process_text (\<lambda>S. rev (sorted_list_of_set S)) example_read example_lemmatize
               example_request = Inr p2"
    and ord2: "\<forall>k u v i j.
        k < length (segments example_request) \<and>
        u \<in> set (example_lemmatize (language example_request) (text (segments example_request ! k))) \<and>
        (\<forall>k'\<le>k. v \<notin> set (example_lemmatize (language example_request)
                                 (text (segments example_request ! k')))) \<and>
        i < length (WordInfoFrequencyMeta.word_list p2) \<and>
        j < length (WordInfoFrequencyMeta.word_list p2) \<and>
        word (WordInfoFrequencyMeta.word_list p2 ! i) = u \<and>
        word (WordInfoFrequencyMeta.word_list p2 ! j) = v \<longrightarrow> i < j"
    by (elim exE conjE)
  from q2 example_run_rev have p2: "p2 = example_output" by simp
  from ord2[unfolded p2, THEN spec[of _ 0], THEN spec[of _ "''oak''"], THEN spec[of _ "''birch''"],
      THEN spec[of _ 1], THEN spec[of _ 2]] len u v facts
  have B: "(1::nat) < 2" by (elim impE) (intro conjI)
  let ?r = "example_request\<lparr>segments := take 1 (segments example_request)\<rparr>"
  have rd: "example_read (url (SegmentWordListUrl.word_list ?r)) = Inr example_word_list"
    by (simp add: example_read_def)
  from determinism_up_to_set_order[of sorted_list_of_set "\<lambda>S. rev (sorted_list_of_set S)"
      example_read ?r example_word_list example_lemmatize,
      OF set_iteration_sorted set_iteration_sorted_rev rd]
  obtain s1 s2 where
    t1: "process_text sorted_list_of_set example_read example_lemmatize ?r = Inr s1"
    and t2: "process_text (\<lambda>S. rev (sorted_list_of_set S)) example_read example_lemmatize ?r = Inr s2"
    and same: "(\<forall>s\<in>set (segments ?r).
         sorted_list_of_set (word ` set (WordInfoMeta.word_list example_word_list) \<inter>
                     set (example_lemmatize (language ?r) (text s))) =
         rev (sorted_list_of_set (word ` set (WordInfoMeta.word_list example_word_list) \<inter>
                     set (example_lemmatize (language ?r) (text s))))) \<longrightarrow> s1 = s2"
    by (elim exE conjE)
  from same single_segment_same_iteration have "s1 = s2" by (rule mp)
  with t1 t2 have C: "process_text sorted_list_of_set example_read example_lemmatize ?r =
     process_text (\<lambda>S. rev (sorted_list_of_set S)) example_read example_lemmatize ?r"
    by simp
  from set_iteration_sorted set_iteration_sorted_rev order_read_ok order_run order_run_rev A
    example_read_ok len u v0 example_run example_run_rev facts(3,4) B single_segment_intersect C
  show ?thesis by (intro conjI)
qed

text \<open>
  The claim as it stands asks for identical outputs, order included. Two runs that differ
  only in the order in which a set of strings is iterated (as two Python processes with
  different hash seeds do) return the records of the same request in different orders.
\<close>

theorem determinism_counterexample:
  "set_iteration sorted_list_of_set \<and>
   set_iteration (\<lambda>S. rev (sorted_list_of_set S)) \<and>
   process_text sorted_list_of_set example_read example_lemmatize order_request = Inr order_output \<and>
   process_text (\<lambda>S. rev (sorted_list_of_set S)) example_read example_lemmatize order_request =
     Inr order_output_rev \<and>
   map word (WordInfoFrequencyMeta.word_list order_output) = [''oak'', ''oak'', ''pine''] \<and>
   map word (WordInfoFrequencyMeta.word_list order_output_rev) = [''pine'', ''oak'', ''oak''] \<and>
   process_text sorted_list_of_set example_read example_lemmatize order_request \<noteq>
   process_text (\<lambda>S. rev (sorted_list_of_set S)) example_read example_lemmatize order_request"
proof -
  have a: "map word (WordInfoFrequencyMeta.word_list order_output) = [''oak'', ''oak'', ''pine'']"
    by (simp add: order_output_def)
  have b: "map word (WordInfoFrequencyMeta.word_list order_output_rev) = [''pine'', ''oak'', ''oak'']"
    by (simp add: order_output_rev_def)
  have "order_output \<noteq> order_output_rev"
  proof
    assume "order_output = order_output_rev"
    with a b show False by simp
  qed
  then have "process_text sorted_list_of_set example_read example_lemmatize order_request \<noteq>
    process_text (\<lambda>S. rev (sorted_list_of_set S)) example_read example_lemmatize order_request"
    unfolding order_run order_run_rev by simp
  with set_iteration_sorted set_iteration_sorted_rev order_run order_run_rev a b
  show ?thesis by (intro conjI)
qed

end
